theory Spec2Isabelle
  imports Complex_Main "HOL-Library.List_Lexorder" "HOL-Library.Char_ord"
begin

section \<open>ChemMate: the chemical equation balancer of \<open>algo.py\<close>\<close>

text \<open>
  A shallow embedding of the class \<open>ChemicalEquationBalancer\<close>. Every method is a HOL
  function of the same name; the leading underscore of \<open>_parse_compound\<close>,
  \<open>_build_matrix\<close> and \<open>_solve_matrix\<close> is dropped. An exception is a value \<open>Inl err\<close> of
  the result type \<open>error + 'a\<close>. Only \<open>parse_equation\<close> assigns to a field of \<open>self\<close>, so
  only \<open>parse_equation\<close> and its caller \<open>balance\<close> take and return the instance.
\<close>

subsection \<open>Data model\<close>

text \<open>
  The exceptions the code can raise: \<open>ValueError\<close> (raised by \<open>parse_equation\<close>, by \<open>int()\<close>
  on a string that is not a decimal literal, and by \<open>min()\<close> of an empty list), the plain
  \<open>Exception\<close> of \<open>_solve_matrix\<close>, \<open>ZeroDivisionError\<close> of \<open>//\<close> and \<open>IndexError\<close> of list
  indexing.
\<close>

datatype error =
    ValueError string
  | Exception string
  | ZeroDivisionError
  | IndexError

text \<open>
  A Python \<open>dict\<close> from element symbol to quantity is an association list with distinct keys
  in insertion order, which is the order \<open>items()\<close> iterates in.
\<close>

type_synonym element_count = "(string \<times> int) list"

text \<open>The two fields that \<open>__init__\<close> creates: \<open>self.elements = {}\<close> and \<open>self.compounds = []\<close>.\<close>

record balancer =
  elements :: element_count
  compounds :: "string list"

definition init :: balancer where
  "init = \<lparr>elements = [], compounds = []\<rparr>"

subsection \<open>Characters and strings of Python\<close>

text \<open>
  A Python string is a sequence of code points. A \<open>char\<close> of HOL is one of the 256 values
  \<open>0 .. 255\<close>; it stands here for the code point of the same number, so the model covers the
  strings over the first 256 code points (ASCII and the Latin-1 supplement). On this range
  the predicates below are the ones of CPython 3: \<open>str.isupper\<close> holds of \<open>A .. Z\<close> and of the
  capital letters \<open>U+00C0 .. U+00DE\<close> (without the sign \<open>U+00D7\<close>), \<open>str.islower\<close> of
  \<open>a .. z\<close>, of \<open>U+00AA\<close>, \<open>U+00B5\<close>, \<open>U+00BA\<close> and of \<open>U+00DF .. U+00FF\<close> (without the
  sign \<open>U+00F7\<close>), and \<open>str.isdigit\<close> of \<open>0 .. 9\<close> and of the superscripts \<open>U+00B2\<close>,
  \<open>U+00B3\<close> and \<open>U+00B9\<close>. Only \<open>0 .. 9\<close> are decimal digits for \<open>int()\<close>.
\<close>

definition isupper :: "char \<Rightarrow> bool" where
  "isupper c =
     (let n = (of_char c :: nat)
      in (65 \<le> n \<and> n \<le> 90) \<or> (192 \<le> n \<and> n \<le> 214) \<or> (216 \<le> n \<and> n \<le> 222))"

definition islower :: "char \<Rightarrow> bool" where
  "islower c =
     (let n = (of_char c :: nat)
      in (97 \<le> n \<and> n \<le> 122) \<or> n = 170 \<or> n = 181 \<or> n = 186
         \<or> (223 \<le> n \<and> n \<le> 246) \<or> (248 \<le> n \<and> n \<le> 255))"

definition isdecimal :: "char \<Rightarrow> bool" where
  "isdecimal c = (let n = (of_char c :: nat) in 48 \<le> n \<and> n \<le> 57)"

definition isdigit :: "char \<Rightarrow> bool" where
  "isdigit c = (let n = (of_char c :: nat) in isdecimal c \<or> n = 178 \<or> n = 179 \<or> n = 185)"

definition digit_value :: "char \<Rightarrow> int" where
  "digit_value c = int (of_char c) - 48"

text \<open>
  \<open>int(s)\<close> for a string \<open>s\<close> of characters that all satisfy \<open>isdigit\<close> (the only strings the
  code passes): the decimal value when every character is a decimal digit, and
  \<open>ValueError\<close> otherwise. The limit that CPython puts on the number of digits of a literal
  (4300 by default since 3.11) is not modelled.
\<close>

definition py_int :: "string \<Rightarrow> error + int" where
  "py_int s =
     (if s \<noteq> [] \<and> list_all isdecimal s
      then Inr (foldl (\<lambda>n c. 10 * n + digit_value c) 0 s)
      else Inl (ValueError ''invalid literal for int() with base 10''))"

text \<open>\<open>str(n)\<close> for an integer.\<close>

function nat_str :: "nat \<Rightarrow> string" where
  "nat_str n =
     (if n < 10 then [char_of (48 + n)]
      else nat_str (n div 10) @ [char_of (48 + n mod 10)])"
  by pat_completeness auto
termination
  by (relation "measure id") auto

definition int_str :: "int \<Rightarrow> string" where
  "int_str i = (if i < 0 then CHR ''-'' # nat_str (nat (- i)) else nat_str (nat i))"

text \<open>
  \<open>s.replace(old, new)\<close> and \<open>s.split(sep)\<close> scan from the left and take the occurrences of
  the pattern that do not overlap. The code calls them with non-empty literal patterns
  only; with an empty pattern the functions below leave the string whole.
\<close>

function str_replace :: "string \<Rightarrow> string \<Rightarrow> string \<Rightarrow> string" where
  "str_replace old new [] = []"
| "str_replace old new (c # cs) =
     (if old \<noteq> [] \<and> take (length old) (c # cs) = old
      then new @ str_replace old new (drop (length old) (c # cs))
      else c # str_replace old new cs)"
  by pat_completeness auto
termination
  by (relation "measure (\<lambda>(old, new, s). length s)") (auto simp: neq_Nil_conv)

function str_split :: "string \<Rightarrow> string \<Rightarrow> string list" where
  "str_split sep [] = [[]]"
| "str_split sep (c # cs) =
     (if sep \<noteq> [] \<and> take (length sep) (c # cs) = sep
      then [] # str_split sep (drop (length sep) (c # cs))
      else (case str_split sep cs of
              [] \<Rightarrow> [[c]]
            | piece # pieces \<Rightarrow> (c # piece) # pieces))"
  by pat_completeness auto
termination
  by (relation "measure (\<lambda>(sep, s). length s)") (auto simp: neq_Nil_conv)

text \<open>\<open>sep.join(xs)\<close>.\<close>

fun str_join :: "string \<Rightarrow> string list \<Rightarrow> string" where
  "str_join sep [] = []"
| "str_join sep [x] = x"
| "str_join sep (x # y # ys) = x @ sep @ str_join sep (y # ys)"

subsection \<open>Dictionaries\<close>

text \<open>\<open>d.get(k, 0)\<close>.\<close>

definition dict_get :: "element_count \<Rightarrow> string \<Rightarrow> int" where
  "dict_get d k = (case map_of d k of None \<Rightarrow> 0 | Some v \<Rightarrow> v)"

text \<open>
  The statement \<open>if element in elements: elements[element] += n else: elements[element] = n\<close>:
  a present key keeps its place, a new key goes to the end.
\<close>

fun dict_add :: "string \<Rightarrow> int \<Rightarrow> element_count \<Rightarrow> element_count" where
  "dict_add k n [] = [(k, n)]"
| "dict_add k n ((k', v) # d) =
     (if k = k' then (k', v + n) # d else (k', v) # dict_add k n d)"

text \<open>
  The loop \<open>for element, quantity in sub_elements.items()\<close> of lines 66 to 70, which adds
  \<open>quantity * count\<close> to the entry of each element of the group.
\<close>

fun merge_group :: "element_count \<Rightarrow> int \<Rightarrow> element_count \<Rightarrow> element_count" where
  "merge_group [] count elems = elems"
| "merge_group ((element, quantity) # sub_elements) count elems =
     merge_group sub_elements count (dict_add element (quantity * count) elems)"

subsection \<open>The equation splitter: \<open>parse_equation\<close>\<close>

text \<open>
  The Python literal \<open>"\longrightarrow"\<close> is a backslash followed by the word, since
  \<open>\l\<close> is no escape sequence.
\<close>

definition longrightarrow :: string where
  "longrightarrow = CHR 0x5C # ''longrightarrow''"

definition normalize :: "string \<Rightarrow> string" where
  "normalize equation =
     str_replace longrightarrow ''-->'' (str_replace ''_'' '''' (str_replace '' '' '''' equation))"

definition parse_equation ::
  "string \<Rightarrow> balancer \<Rightarrow> (error + string list \<times> string list) \<times> balancer" where
  "parse_equation equation self =
     (let sides = str_split ''-->'' (normalize equation)
      in if length sides \<noteq> 2 then (Inl (ValueError ''Unable to parse the equation''), self)
         else
           let reactants = str_split ''+'' (sides ! 0);
               products = str_split ''+'' (sides ! 1)
           in (Inr (reactants, products), self\<lparr>compounds := reactants @ products\<rparr>))"

subsection \<open>The formula parser: \<open>_parse_compound\<close>\<close>

text \<open>
  The loops of \<open>_parse_compound\<close> move an index through \<open>compound\<close>; the model works on the
  rest of the string from that index on. \<open>match_paren paren_count rest\<close> is the inner loop
  of lines 48 to 53 started at \<open>j\<close> with \<open>rest = compound[j:]\<close>: it returns by how much \<open>j\<close>
  has grown when the loop ends, because \<open>paren_count\<close> is 0 or the string is exhausted.
\<close>

fun match_paren :: "nat \<Rightarrow> string \<Rightarrow> nat" where
  "match_paren paren_count [] = 0"
| "match_paren paren_count (c # cs) =
     (if paren_count = 0 then 0
      else if c = CHR ''('' then Suc (match_paren (paren_count + 1) cs)
      else if c = CHR '')'' then Suc (match_paren (paren_count - 1) cs)
      else Suc (match_paren paren_count cs))"

text \<open>\<open>count = int(subscript) if subscript else 1\<close>.\<close>

definition subscript_count :: "string \<Rightarrow> error + int" where
  "subscript_count subscript = (if subscript = [] then Inr 1 else py_int subscript)"

text \<open>
  Lines 75 to 80: the element symbol that starts with the upper-case character \<open>c\<close>, and
  the rest of the string after it.
\<close>

fun read_symbol :: "char \<Rightarrow> string \<Rightarrow> string \<times> string" where
  "read_symbol c [] = ([c], [])"
| "read_symbol c (c' # cs) = (if islower c' then ([c, c'], cs) else ([c], c' # cs))"

text \<open>
  The outer loop, on \<open>compound[i:]\<close> and the dictionary built so far. With \<open>t = compound[i+1:]\<close>
  and \<open>k = match_paren 1 t\<close>, the index \<open>j\<close> after the inner loop is \<open>i + 1 + k\<close>, so the slice
  \<open>compound[i + 1 : j - 1]\<close> is \<open>take (k - 1) t\<close> (empty when \<open>k = 0\<close>) and \<open>compound[j:]\<close> is
  \<open>drop k t\<close>. The digit loops are \<open>takeWhile isdigit\<close> and \<open>dropWhile isdigit\<close>.
\<close>

function parse_compound_loop :: "string \<Rightarrow> element_count \<Rightarrow> error + element_count" where
  "parse_compound_loop [] elems = Inr elems"
| "parse_compound_loop (c # t) elems =
     (if c = CHR ''('' then
        (case parse_compound_loop (take (match_paren 1 t - 1) t) [] of
           Inl err \<Rightarrow> Inl err
         | Inr sub_elements \<Rightarrow>
             (case subscript_count (takeWhile isdigit (drop (match_paren 1 t) t)) of
                Inl err \<Rightarrow> Inl err
              | Inr count \<Rightarrow>
                  parse_compound_loop (dropWhile isdigit (drop (match_paren 1 t) t))
                    (merge_group sub_elements count elems)))
      else if isupper c then
        (case subscript_count (takeWhile isdigit (snd (read_symbol c t))) of
           Inl err \<Rightarrow> Inl err
         | Inr count \<Rightarrow>
             parse_compound_loop (dropWhile isdigit (snd (read_symbol c t)))
               (dict_add (fst (read_symbol c t)) count elems))
      else parse_compound_loop t elems)"
  by pat_completeness auto
termination
proof (relation "measure (\<lambda>(s, elems). length s)")
  show "wf (measure (\<lambda>(s, elems). length s))"
    by simp
next
  fix c :: char and t :: string and elems :: element_count
  show "((take (match_paren 1 t - 1) t, []), c # t, elems) \<in> measure (\<lambda>(s, elems). length s)"
    by simp
next
  fix c :: char and t :: string and elems sub :: element_count and n :: int
  have "length (dropWhile isdigit (drop (match_paren 1 t) t)) \<le> length t"
    using length_dropWhile_le [of isdigit "drop (match_paren 1 t) t"] by simp
  then show "((dropWhile isdigit (drop (match_paren 1 t) t), merge_group sub n elems), c # t, elems)
      \<in> measure (\<lambda>(s, elems). length s)"
    by simp
next
  fix c :: char and t :: string and elems :: element_count and n :: int
  have "length (dropWhile isdigit (snd (read_symbol c t))) \<le> length t"
    using length_dropWhile_le [of isdigit "snd (read_symbol c t)"]
    by (cases t) (auto split: if_splits)
  then show "((dropWhile isdigit (snd (read_symbol c t)), dict_add (fst (read_symbol c t)) n elems),
      c # t, elems) \<in> measure (\<lambda>(s, elems). length s)"
    by simp
next
  fix c :: char and t :: string and elems :: element_count
  show "((t, elems), c # t, elems) \<in> measure (\<lambda>(s, elems). length s)"
    by simp
qed

definition parse_compound :: "string \<Rightarrow> error + element_count" where
  "parse_compound compound = parse_compound_loop compound []"

subsection \<open>The matrix builder: \<open>_build_matrix\<close>\<close>

text \<open>
  The two loops of lines 105 to 114 parse each compound and add its keys to the Python
  set \<open>all_elements\<close>.
\<close>

fun collect_elements :: "string list \<Rightarrow> string set \<Rightarrow> error + string set" where
  "collect_elements [] all_elements = Inr all_elements"
| "collect_elements (compound # cs) all_elements =
     (case parse_compound compound of
        Inl err \<Rightarrow> Inl err
      | Inr elems \<Rightarrow> collect_elements cs (all_elements \<union> set (map fst elems)))"

text \<open>
  The inner loops of lines 125 to 133: the entries of the row of \<open>element\<close> for a list of
  compounds, each compound parsed again; \<open>negative\<close> tells the reactants from the products.
\<close>

fun row_entries :: "bool \<Rightarrow> string \<Rightarrow> string list \<Rightarrow> error + int list" where
  "row_entries negative element [] = Inr []"
| "row_entries negative element (compound # cs) =
     (case parse_compound compound of
        Inl err \<Rightarrow> Inl err
      | Inr elems \<Rightarrow>
          (case row_entries negative element cs of
             Inl err \<Rightarrow> Inl err
           | Inr row \<Rightarrow>
               Inr ((if negative then - dict_get elems element else dict_get elems element) # row)))"

fun build_rows :: "string list \<Rightarrow> string list \<Rightarrow> string list \<Rightarrow> error + int list list" where
  "build_rows [] reactants products = Inr []"
| "build_rows (element # es) reactants products =
     (case row_entries True element reactants of
        Inl err \<Rightarrow> Inl err
      | Inr row1 \<Rightarrow>
          (case row_entries False element products of
             Inl err \<Rightarrow> Inl err
           | Inr row2 \<Rightarrow>
               (case build_rows es reactants products of
                  Inl err \<Rightarrow> Inl err
                | Inr matrix \<Rightarrow> Inr ((row1 @ row2) # matrix))))"

text \<open>
  \<open>list(all_elements)\<close> lists a Python set in an order the language does not fix (for
  strings it changes from one run of the interpreter to the next). The order is a
  parameter \<open>order\<close> of the model: a function from the set to a list of its elements.
\<close>

definition build_matrix ::
  "(string set \<Rightarrow> string list) \<Rightarrow> string list \<Rightarrow> string list
     \<Rightarrow> error + int list list \<times> string list" where
  "build_matrix order reactants products =
     (case collect_elements reactants {} of
        Inl err \<Rightarrow> Inl err
      | Inr all_elements1 \<Rightarrow>
          (case collect_elements products all_elements1 of
             Inl err \<Rightarrow> Inl err
           | Inr all_elements \<Rightarrow>
               let element_list = order all_elements
               in (case build_rows element_list reactants products of
                     Inl err \<Rightarrow> Inl err
                   | Inr matrix \<Rightarrow> Inr (matrix, element_list))))"

subsection \<open>The null-space solver: \<open>_solve_matrix\<close>\<close>

text \<open>
  \<open>sympy.Matrix(matrix).nullspace()\<close> is a call into the library sympy. In \<open>solve_matrix\<close>
  it is the parameter \<open>ns\<close>: a function from the integer matrix to a list of vectors of
  rationals. \<open>x.q\<close> is the denominator of the rational \<open>x\<close> in lowest terms, \<open>sympy.ilcm\<close> is
  \<open>lcm\<close>, \<open>int(x)\<close> rounds a rational towards zero, \<open>math.gcd\<close> is \<open>gcd\<close> and \<open>//\<close> is \<open>div\<close>
  with \<open>ZeroDivisionError\<close> for the divisor 0.
\<close>

definition rat_int :: "rat \<Rightarrow> int" where
  "rat_int x = (if x < 0 then - \<lfloor>- x\<rfloor> else \<lfloor>x\<rfloor>)"

definition solve_matrix :: "(int list list \<Rightarrow> rat list list) \<Rightarrow> int list list \<Rightarrow> error + int list" where
  "solve_matrix ns matrix =
     (case ns matrix of
        [] \<Rightarrow> Inl (Exception ''No solution found for the matrix.'')
      | sol # _ \<Rightarrow>
          let denominators = map (\<lambda>x. snd (quotient_of x)) sol;
              lcm_denom = foldl lcm 1 denominators;
              coeffs = map (\<lambda>x. rat_int (x * of_int lcm_denom)) sol
          in if coeffs = [] then Inl (ValueError ''min() arg is an empty sequence'')
             else
               let coeffs = (if min_list coeffs < 0 then map uminus coeffs else coeffs);
                   g = foldl gcd (hd coeffs) (tl coeffs)
               in if g = 0 then Inl ZeroDivisionError
                  else Inr (map (\<lambda>c. c div g) coeffs))"

text \<open>
  Modelled from the spec: \<open>Matrix.nullspace\<close> of sympy, which is not part of the
  repository. Section 4.4 of the specification describes it: row-reduce to reduced
  row-echelon form over the rationals, identify the free columns, and construct for each
  free column the basis vector by back-substitution (the free variable is 1, the other
  free variables are 0, and each pivot variable is minus the entry of its row in the free
  column). The vectors come in the order of their free columns.

  \<open>rref n c piv_rows rest\<close> reduces the columns \<open>c, ..., c + n - 1\<close>: \<open>piv_rows\<close> holds the
  pivot rows found so far, \<open>rest\<close> the other rows. It returns the pivot columns and the reduced
  matrix.
\<close>

fun find_pivot :: "nat \<Rightarrow> rat list list \<Rightarrow> (rat list \<times> rat list list) option" where
  "find_pivot c [] = None"
| "find_pivot c (r # rs) =
     (if r ! c \<noteq> 0 then Some (r, rs)
      else (case find_pivot c rs of
              None \<Rightarrow> None
            | Some (p, others) \<Rightarrow> Some (p, r # others)))"

definition eliminate :: "nat \<Rightarrow> rat list \<Rightarrow> rat list \<Rightarrow> rat list" where
  "eliminate c p r = map2 (\<lambda>x y. x - r ! c * y) r p"

fun rref :: "nat \<Rightarrow> nat \<Rightarrow> rat list list \<Rightarrow> rat list list \<Rightarrow> nat list \<times> rat list list" where
  "rref 0 c piv_rows rest = ([], piv_rows @ rest)"
| "rref (Suc n) c piv_rows rest =
     (case find_pivot c rest of
        None \<Rightarrow> rref n (Suc c) piv_rows rest
      | Some (r, others) \<Rightarrow>
          let p = map (\<lambda>x. x / r ! c) r;
              (pivots, reduced) =
                 rref n (Suc c) (map (eliminate c p) piv_rows @ [p]) (map (eliminate c p) others)
          in (c # pivots, reduced))"

definition basis_vector :: "nat \<Rightarrow> nat list \<Rightarrow> rat list list \<Rightarrow> nat \<Rightarrow> rat list" where
  "basis_vector cols pivots reduced free_var =
     foldl (\<lambda>vec (piv_row, piv_col). vec[piv_col := vec ! piv_col - reduced ! piv_row ! free_var])
       ((replicate cols 0)[free_var := 1]) (zip [0..<length pivots] pivots)"

definition nullspace :: "int list list \<Rightarrow> rat list list" where
  "nullspace matrix =
     (let cols = (case matrix of [] \<Rightarrow> 0 | row # _ \<Rightarrow> length row);
          (pivots, reduced) = rref cols 0 [] (map (map of_int) matrix);
          free_vars = filter (\<lambda>i. i \<notin> set pivots) [0..<cols]
      in map (basis_vector cols pivots reduced) free_vars)"

subsection \<open>The formatter: \<open>get_balanced_equation\<close>\<close>

text \<open>
  One of the two loops over \<open>enumerate\<close>, started at index \<open>i\<close> of \<open>coefficients\<close>:
  \<open>coefficients[i]\<close> raises \<open>IndexError\<close> when the list is too short.
\<close>

fun format_side :: "int list \<Rightarrow> nat \<Rightarrow> string list \<Rightarrow> error + string list" where
  "format_side coefficients i [] = Inr []"
| "format_side coefficients i (compound # cs) =
     (if i < length coefficients then
        (case format_side coefficients (Suc i) cs of
           Inl err \<Rightarrow> Inl err
         | Inr balanced \<Rightarrow>
             Inr ((if coefficients ! i = 1 then compound
                   else int_str (coefficients ! i) @ compound) # balanced))
      else Inl IndexError)"

text \<open>The raw literal \<open>r"\to"\<close>: a backslash, \<open>t\<close> and \<open>o\<close>.\<close>

definition to_arrow :: string where
  "to_arrow = CHR 0x5C # ''to''"

definition get_balanced_equation :: "int list \<Rightarrow> string list \<Rightarrow> string list \<Rightarrow> error + string" where
  "get_balanced_equation coefficients reactants products =
     (case format_side coefficients 0 reactants of
        Inl err \<Rightarrow> Inl err
      | Inr balanced_reactants \<Rightarrow>
          (case format_side coefficients (length reactants) products of
             Inl err \<Rightarrow> Inl err
           | Inr balanced_products \<Rightarrow>
               Inr (str_join '' + '' balanced_reactants @ to_arrow
                    @ str_join '' + '' balanced_products)))"

subsection \<open>The main method: \<open>balance\<close>\<close>

definition balance ::
  "(string set \<Rightarrow> string list) \<Rightarrow> (int list list \<Rightarrow> rat list list) \<Rightarrow> string \<Rightarrow> balancer
     \<Rightarrow> (error + string) \<times> balancer" where
  "balance order ns equation self =
     (case parse_equation equation self of
        (Inl err, self') \<Rightarrow> (Inl err, self')
      | (Inr (reactants, products), self') \<Rightarrow>
          (case build_matrix order reactants products of
             Inl err \<Rightarrow> (Inl err, self')
           | Inr (matrix, element_list) \<Rightarrow>
               (case solve_matrix ns matrix of
                  Inl err \<Rightarrow> (Inl err, self')
                | Inr coefficients \<Rightarrow>
                    (get_balanced_equation coefficients reactants products, self'))))"

section \<open>Notions used in the statements\<close>

text \<open>
  A string is balanced when each closing parenthesis matches an opening one before it and
  no opening parenthesis is left open; \<open>balanced_from depth\<close> is the same for a string
  read at nesting depth \<open>depth\<close>.
\<close>

fun balanced_from :: "nat \<Rightarrow> string \<Rightarrow> bool" where
  "balanced_from depth [] = (depth = 0)"
| "balanced_from depth (c # cs) =
     (if c = CHR ''('' then balanced_from (depth + 1) cs
      else if c = CHR '')'' then 0 < depth \<and> balanced_from (depth - 1) cs
      else balanced_from depth cs)"

definition balanced :: "string \<Rightarrow> bool" where
  "balanced s = balanced_from 0 s"


text \<open>
  Names for the three steps of \<open>solve_matrix\<close> after the call of \<open>ns\<close>: the multiplication
  by the least common multiple of the denominators, the negation when the minimum is
  negative, and the greatest common divisor that the loop of lines 192 to 194 computes.
\<close>

definition scale_to_integers :: "rat list \<Rightarrow> int list" where
  "scale_to_integers sol =
     map (\<lambda>x. rat_int (x * of_int (foldl lcm 1 (map (\<lambda>x. snd (quotient_of x)) sol)))) sol"

definition sign_normalize :: "int list \<Rightarrow> int list" where
  "sign_normalize coeffs = (if min_list coeffs < 0 then map uminus coeffs else coeffs)"

definition gcd_of :: "int list \<Rightarrow> int" where
  "gcd_of coeffs = foldl gcd (hd coeffs) (tl coeffs)"


text \<open>
  The number of positions of a string at which the separator occurs. An occurrence of
  \<open>-->\<close> cannot overlap another one, so for this separator the number is also the one of
  \<open>str.count\<close>.
\<close>

fun occurrences :: "string \<Rightarrow> string \<Rightarrow> nat" where
  "occurrences sep [] = 0"
| "occurrences sep (c # cs) =
     (if take (length sep) (c # cs) = sep then 1 else 0) + occurrences sep cs"


text \<open>
  The count of an element in a compound, as \<open>_build_matrix\<close> reads it with
  \<open>elements.get(element, 0)\<close> from the parsed compound, and the set of the elements that occur
  in a compound, the keys of its dictionary.
\<close>

definition parsed_count :: "string \<Rightarrow> string \<Rightarrow> int" where
  "parsed_count compound element =
     (case parse_compound compound of Inl err \<Rightarrow> 0 | Inr elems \<Rightarrow> dict_get elems element)"

definition element_keys :: "string \<Rightarrow> string set" where
  "element_keys compound =
     (case parse_compound compound of Inl err \<Rightarrow> {} | Inr elems \<Rightarrow> set (map fst elems))"

text \<open>
  What a vector returned by \<open>nullspace()\<close> is expected to be: a vector of the null space
  of the matrix. It has one entry for each column, and each row times the vector is 0.
\<close>

definition null_vector :: "int list list \<Rightarrow> rat list \<Rightarrow> bool" where
  "null_vector matrix v =
     list_all (\<lambda>row. length v = length row \<and> (\<Sum>(a, x) \<leftarrow> zip row v. of_int a * x) = 0) matrix"

text \<open>
  The row of an element in the matrix of an equation: minus its count in each reactant,
  then its count in each product.
\<close>

definition matrix_row :: "string list \<Rightarrow> string list \<Rightarrow> string \<Rightarrow> int list" where
  "matrix_row reactants products element =
     map (\<lambda>compound. - parsed_count compound element) reactants
     @ map (\<lambda>compound. parsed_count compound element) products"


text \<open>
  The product of a row and a vector, and the invariant of \<open>rref\<close> when it comes to column
  \<open>c\<close> of a matrix of width \<open>w\<close>: all rows have the width \<open>w\<close>; \<open>pv\<close> lists the pivot columns
  found so far, all before \<open>c\<close>, one for each pivot row; a pivot row has a 1 in its own
  pivot column and a 0 in the other pivot columns; the other rows are 0 before column \<open>c\<close>.
\<close>

definition dot :: "rat list \<Rightarrow> rat list \<Rightarrow> rat" where
  "dot r v = (\<Sum>(a, x) \<leftarrow> zip r v. a * x)"


definition rref_inv :: "nat \<Rightarrow> nat \<Rightarrow> nat list \<Rightarrow> rat list list \<Rightarrow> rat list list \<Rightarrow> bool" where
  "rref_inv w c pv P R \<longleftrightarrow>
     (\<forall>r \<in> set (P @ R). length r = w)
     \<and> length pv = length P
     \<and> (\<forall>i < length P. \<forall>j < length P. P ! i ! (pv ! j) = (if i = j then 1 else 0))
     \<and> (\<forall>j < length pv. pv ! j < c)
     \<and> (\<forall>r \<in> set R. \<forall>col < c. r ! col = 0)"


section \<open>Properties\<close>

subsection \<open>Dictionaries and digit runs\<close>

lemma dict_get_dict_add: "dict_get (dict_add k n d) e = dict_get d e + (if e = k then n else 0)"
  by (induction d) (auto simp: dict_get_def)

lemma keys_dict_add: "set (map fst (dict_add k n d)) = insert k (set (map fst d))"
proof (induction d)
  case Nil
  then show ?case by simp
next
  case (Cons a d)
  obtain k' v where a: "a = (k', v)" by (cases a)
  show ?case
  proof (cases "k = k'")
    case True
    then show ?thesis by (auto simp: a)
  next
    case False
    then show ?thesis using Cons by (auto simp: a)
  qed
qed

lemma distinct_dict_add: "distinct (map fst d) \<Longrightarrow> distinct (map fst (dict_add k n d))"
proof (induction d)
  case Nil
  then show ?case by simp
next
  case (Cons a d)
  obtain k' v where a: "a = (k', v)" by (cases a)
  from Cons show ?case
    using keys_dict_add [of k n d] by (auto simp: a)
qed



lemma distinct_merge_group:
  "distinct (map fst elems) \<Longrightarrow> distinct (map fst (merge_group sub n elems))"
proof (induction sub n elems rule: merge_group.induct)
  case (1 count elems)
  then show ?case by simp
next
  case (2 element quantity sub_elements count elems)
  then show ?case using distinct_dict_add by simp
qed

lemma dict_get_merge_group:
  "dict_get (merge_group sub n elems) e
     = dict_get elems e + (\<Sum>(k, q) \<leftarrow> sub. if k = e then q * n else 0)"
proof (induction sub n elems rule: merge_group.induct)
  case (1 count elems)
  then show ?case by simp
next
  case (2 element quantity sub_elements count elems)
  have "dict_get (merge_group sub_elements count (dict_add element (quantity * count) elems)) e
      = dict_get (dict_add element (quantity * count) elems) e
        + (\<Sum>(k, q) \<leftarrow> sub_elements. if k = e then q * count else 0)"
    by (rule 2)
  then show ?case
    by (simp add: dict_get_dict_add)
qed

lemma sum_distinct_keys:
  "distinct (map fst sub) \<Longrightarrow> (\<Sum>(k, q) \<leftarrow> sub. if k = e then q * n else 0) = dict_get sub e * (n::int)"
proof (induction sub)
  case Nil
  then show ?case by (simp add: dict_get_def)
next
  case (Cons a sub)
  obtain k q where a: "a = (k, q)" by (cases a)
  have IH: "(\<Sum>(k, q) \<leftarrow> sub. if k = e then q * n else 0) = dict_get sub e * n"
    using Cons by simp
  show ?case
  proof (cases "k = e")
    case True
    then have "e \<notin> fst ` set sub" using Cons.prems a by auto
    then have "map_of sub e = None" by (simp add: map_of_eq_None_iff)
    then have "dict_get sub e = 0" by (simp add: dict_get_def)
    then show ?thesis using IH a True by (simp add: dict_get_def)
  next
    case False
    then show ?thesis using IH a by (simp add: dict_get_def)
  qed
qed






lemma set_read_symbol: "set (snd (read_symbol c t)) \<subseteq> set t"
  by (cases t) auto


lemma set_dropWhile_sub: "set (dropWhile P xs) \<subseteq> set xs"
  by (auto dest: set_dropWhileD)


subsection \<open>The counts of the formula parser\<close>




subsection \<open>Parenthesised groups\<close>

lemma match_paren_balanced:
  "balanced_from depth inner \<Longrightarrow>
     match_paren (Suc depth) (inner @ CHR '')'' # rest) = Suc (length inner)"
proof (induction inner arbitrary: depth)
  case Nil
  then show ?case by (cases rest) simp_all
next
  case (Cons c cs)
  show ?case
  proof (cases "c = CHR ''(''")
    case True
    then have "balanced_from (Suc depth) cs" using Cons.prems by simp
    then show ?thesis using Cons.IH True by simp
  next
    case nopen: False
    show ?thesis
    proof (cases "c = CHR '')''")
      case True
      then obtain d where d: "depth = Suc d" and b: "balanced_from d cs"
        using Cons.prems nopen by (cases depth) auto
      show ?thesis using Cons.IH [OF b] True d by simp
    next
      case False
      then have "balanced_from depth cs" using Cons.prems nopen by simp
      then show ?thesis using Cons.IH nopen False by simp
    qed
  qed
qed

lemma takeWhile_digits:
  "list_all isdigit ds \<Longrightarrow> rest = [] \<or> \<not> isdigit (hd rest) \<Longrightarrow> takeWhile isdigit (ds @ rest) = ds"
  by (induction ds) (auto simp: takeWhile_eq_Nil_iff neq_Nil_conv)

lemma dropWhile_digits:
  "list_all isdigit ds \<Longrightarrow> rest = [] \<or> \<not> isdigit (hd rest) \<Longrightarrow> dropWhile isdigit (ds @ rest) = rest"
  by (induction ds) (auto simp: dropWhile_eq_self_iff)

lemma loop_distinct:
  "parse_compound_loop s acc = Inr d \<Longrightarrow> distinct (map fst acc) \<Longrightarrow> distinct (map fst d)"
proof (induction s acc arbitrary: d rule: parse_compound_loop.induct)
  case (1 elems)
  then show ?case by simp
next
  case (2 c t elems)
  show ?case
  proof (cases "c = CHR ''(''")
    case True
    let ?k = "match_paren 1 t"
    let ?rest = "drop ?k t"
    from "2.prems"(1) True obtain se n where
      se: "parse_compound_loop (take (?k - 1) t) [] = Inr se"
      and n: "subscript_count (takeWhile isdigit ?rest) = Inr n"
      and d: "parse_compound_loop (dropWhile isdigit ?rest) (merge_group se n elems) = Inr d"
      by (simp split: sum.splits)
    have "distinct (map fst (merge_group se n elems))"
      using "2.prems"(2) by (rule distinct_merge_group)
    then show ?thesis using "2.IH"(2) [OF True se n d] by simp
  next
    case False
    show ?thesis
    proof (cases "isupper c")
      case True
      let ?rest = "snd (read_symbol c t)"
      from "2.prems"(1) False True obtain n where
        n: "subscript_count (takeWhile isdigit ?rest) = Inr n"
        and d: "parse_compound_loop (dropWhile isdigit ?rest)
                  (dict_add (fst (read_symbol c t)) n elems) = Inr d"
        by (simp split: sum.splits)
      have "distinct (map fst (dict_add (fst (read_symbol c t)) n elems))"
        using "2.prems"(2) by (rule distinct_dict_add)
      then show ?thesis using "2.IH"(3) [OF False True n d] by simp
    next
      case nu: False
      then have d: "parse_compound_loop t elems = Inr d" using "2.prems"(1) False by simp
      show ?thesis using "2.IH"(4) [OF False nu d "2.prems"(2)] .
    qed
  qed
qed

lemma parse_compound_distinct: "parse_compound s = Inr d \<Longrightarrow> distinct (map fst d)"
  using loop_distinct [of s "[]" d] by (simp add: parse_compound_def)

lemma group_step:
  assumes "balanced inner" and "list_all isdigit ds" and "rest = [] \<or> \<not> isdigit (hd rest)"
    and "parse_compound inner = Inr sub_elements" and "subscript_count ds = Inr count"
  shows "parse_compound_loop (CHR ''('' # inner @ CHR '')'' # ds @ rest) elems
           = parse_compound_loop rest (merge_group sub_elements count elems)"
proof -
  let ?t = "inner @ CHR '')'' # ds @ rest"
  have k: "match_paren 1 ?t = Suc (length inner)"
    using match_paren_balanced [of 0 inner "ds @ rest"] assms(1) by (simp add: balanced_def)
  have t1: "take (match_paren 1 ?t - 1) ?t = inner" unfolding k by simp
  have t2: "drop (match_paren 1 ?t) ?t = ds @ rest" unfolding k by simp
  have p: "parse_compound_loop inner [] = Inr sub_elements"
    using assms(4) by (simp add: parse_compound_def)
  show ?thesis
    by (simp only: parse_compound_loop.simps t1 t2 p takeWhile_digits [OF assms(2,3)]
          dropWhile_digits [OF assms(2,3)] assms(5) simp_thms if_True sum.case)
qed

text \<open>
  C6. Parsing the compound \<open>(AB2)3\<close> yields the mapping of \<open>A\<close> to 3 and \<open>B\<close> to 6. In
  general, when the loop meets an opening parenthesis followed by a balanced string
  \<open>inner\<close>, the closing parenthesis, a digit run \<open>ds\<close> and a rest that does not go on with a
  digit, it parses \<open>inner\<close> recursively, goes on with the rest, and the dictionary it goes
  on with holds, for every element, the count it held before plus the count of the
  element in the group times the value of the digit run.
\<close>

theorem parse_group_multiplier:
  "parse_compound ''(AB2)3'' = Inr [(''A'', 3), (''B'', 6)]
   \<and> (balanced inner \<and> list_all isdigit ds \<and> (rest = [] \<or> \<not> isdigit (hd rest))
        \<and> parse_compound inner = Inr sub_elements \<and> subscript_count ds = Inr count
      \<longrightarrow> parse_compound_loop (CHR ''('' # inner @ CHR '')'' # ds @ rest) elems
            = parse_compound_loop rest (merge_group sub_elements count elems)
          \<and> (\<forall>e. dict_get (merge_group sub_elements count elems) e
                   = dict_get elems e + dict_get sub_elements e * count))"
proof -
  have "parse_compound ''(AB2)3'' = Inr [(''A'', 3), (''B'', 6)]"
    by code_simp
  moreover have "dict_get (merge_group sub_elements count elems) e
      = dict_get elems e + dict_get sub_elements e * count"
    if "parse_compound inner = Inr sub_elements" for e
    using parse_compound_distinct [OF that] by (simp add: dict_get_merge_group sum_distinct_keys)
  ultimately show ?thesis
    using group_step by blast
qed

theorem parse_group_multiplier_witness:
  "balanced ''AB2'' \<and> list_all isdigit ''3'' \<and> parse_compound ''AB2'' = Inr [(''A'', 1), (''B'', 2)]
   \<and> subscript_count ''3'' = Inr 3
   \<and> parse_compound_loop ''(AB2)3'' [] = parse_compound_loop [] (merge_group [(''A'', 1), (''B'', 2)] 3 [])
   \<and> dict_get (merge_group [(''A'', 1), (''B'', 2)] 3 []) ''B'' = 0 + 2 * 3"
proof -
  have h1: "balanced ''AB2''" by code_simp
  have h2: "list_all isdigit ''3''" by code_simp
  have h3: "parse_compound ''AB2'' = Inr [(''A'', 1), (''B'', 2)]" by code_simp
  have h4: "subscript_count ''3'' = Inr 3" by code_simp
  have h5: "dict_get [] ''B'' = 0" "dict_get [(''A'', 1), (''B'', 2)] ''B'' = 2" by code_simp+
  show ?thesis
    using parse_group_multiplier [of "''AB2''" "''3''" "[]" "[(''A'', 1), (''B'', 2)]" 3 "[]"]
      h1 h2 h3 h4 h5 by simp
qed
subsection \<open>The formula parser\<close>

text \<open>
  The parser returns a mapping for every string in which the characters that \<open>str.isdigit\<close>
  accepts are decimal digits; an unmatched parenthesis or a stray character does no harm.
\<close>

lemma subscript_count_decimal:
  assumes "\<forall>c \<in> set u. isdecimal c"
  shows "\<exists>n. subscript_count u = Inr n"
  using assms by (simp add: subscript_count_def py_int_def list_all_iff)

lemma digit_run_decimal:
  assumes "\<forall>c \<in> set s. isdigit c \<longrightarrow> isdecimal c" and "set u \<subseteq> set s"
  shows "\<exists>n. subscript_count (takeWhile isdigit u) = Inr n"
proof -
  have "\<forall>c \<in> set (takeWhile isdigit u). isdecimal c"
    using assms by (auto dest: set_takeWhileD)
  then show ?thesis by (rule subscript_count_decimal)
qed

lemma parse_compound_loop_decimal:
  "\<forall>c \<in> set s. isdigit c \<longrightarrow> isdecimal c \<Longrightarrow> \<exists>d. parse_compound_loop s acc = Inr d"
proof (induction s acc rule: parse_compound_loop.induct)
  case (1 elems)
  then show ?case by simp
next
  case (2 c t elems)
  have t: "\<forall>c \<in> set t. isdigit c \<longrightarrow> isdecimal c" using "2.prems" by simp
  have sub: "\<forall>c \<in> set u. isdigit c \<longrightarrow> isdecimal c" if "set u \<subseteq> set t" for u
    using that t by blast
  show ?case
  proof (cases "c = CHR ''(''")
    case True
    let ?k = "match_paren 1 t"
    let ?rest = "drop ?k t"
    have "\<forall>c \<in> set (take (?k - 1) t). isdigit c \<longrightarrow> isdecimal c"
      using set_take_subset by (rule sub)
    then obtain se where se: "parse_compound_loop (take (?k - 1) t) [] = Inr se"
      using "2.IH"(1) [OF True] by blast
    have r: "set ?rest \<subseteq> set t" by (rule set_drop_subset)
    obtain n where n: "subscript_count (takeWhile isdigit ?rest) = Inr n"
      using digit_run_decimal [OF t r] by blast
    have "set (dropWhile isdigit ?rest) \<subseteq> set t"
      using set_dropWhile_sub [of isdigit ?rest] r by (rule order_trans)
    then have "\<forall>c \<in> set (dropWhile isdigit ?rest). isdigit c \<longrightarrow> isdecimal c"
      by (rule sub)
    then obtain d where "parse_compound_loop (dropWhile isdigit ?rest) (merge_group se n elems) = Inr d"
      using "2.IH"(2) [OF True se n] by blast
    then show ?thesis using True se n by simp
  next
    case False
    show ?thesis
    proof (cases "isupper c")
      case True
      let ?rest = "snd (read_symbol c t)"
      have r: "set ?rest \<subseteq> set t" by (rule set_read_symbol)
      obtain n where n: "subscript_count (takeWhile isdigit ?rest) = Inr n"
        using digit_run_decimal [OF t r] by blast
      have "set (dropWhile isdigit ?rest) \<subseteq> set t"
        using set_dropWhile_sub [of isdigit ?rest] r by (rule order_trans)
      then have "\<forall>c \<in> set (dropWhile isdigit ?rest). isdigit c \<longrightarrow> isdecimal c"
        by (rule sub)
      then obtain d where "parse_compound_loop (dropWhile isdigit ?rest)
          (dict_add (fst (read_symbol c t)) n elems) = Inr d"
        using "2.IH"(3) [OF False True n] by blast
      then show ?thesis using False True n by simp
    next
      case nu: False
      obtain d where "parse_compound_loop t elems = Inr d"
        using "2.IH"(4) [OF False nu t] by blast
      then show ?thesis using False nu by simp
    qed
  qed
qed

lemma parse_compound_decimal:
  "\<forall>c \<in> set compound. isdigit c \<longrightarrow> isdecimal c \<Longrightarrow> \<exists>elems. parse_compound compound = Inr elems"
  unfolding parse_compound_def by (rule parse_compound_loop_decimal)

text \<open>
  C10. The formula parser is total: for every input string, also one with an unmatched
  parenthesis or stray characters, \<open>_parse_compound\<close> terminates and returns a mapping.

  The loops do terminate: \<open>parse_compound_loop\<close> is a total function whose termination
  proof is by the length of the rest of the string, which every iteration and every recursive
  call shortens. But the parser does not return a mapping for every string. A digit run is
  collected with \<open>str.isdigit\<close>, which accepts the superscript digits, and is then given to
  \<open>int()\<close>, which rejects them: on the compound \<open>H\<close> followed by the superscript two
  (\<open>U+00B2\<close>) the parser raises \<open>ValueError\<close>. By \<open>parse_compound_decimal\<close> this is the
  only way for the parser to fail.
\<close>

theorem parse_compound_superscript_raises:
  "parse_compound [CHR ''H'', CHR 0xB2]
     = Inl (ValueError ''invalid literal for int() with base 10'')"
  by code_simp

subsection \<open>The equation splitter\<close>

lemma str_split_not_Nil: "str_split sep s \<noteq> []"
  by (induction sep s rule: str_split.induct) (auto split: list.splits)

lemma str_join_Cons: "ps \<noteq> [] \<Longrightarrow> str_join sep (p # ps) = p @ sep @ str_join sep ps"
  by (cases ps) simp_all

lemma str_join_first: "str_join sep ((c # p) # ps) = c # str_join sep (p # ps)"
  by (cases ps) simp_all

lemma str_join_split: "str_join sep (str_split sep s) = s"
proof (induction sep s rule: str_split.induct)
  case (1 sep)
  then show ?case by simp
next
  case (2 sep c cs)
  show ?case
  proof (cases "sep \<noteq> [] \<and> take (length sep) (c # cs) = sep")
    case True
    then have "str_join sep (str_split sep (drop (length sep) (c # cs))) = drop (length sep) (c # cs)"
      using 2(1) by simp
    moreover have "sep @ drop (length sep) (c # cs) = c # cs"
      using True append_take_drop_id [of "length sep" "c # cs"] by simp
    ultimately show ?thesis
      using True str_split_not_Nil [of sep "drop (length sep) (c # cs)"]
      by (simp add: str_join_Cons)
  next
    case False
    obtain p ps where ps: "str_split sep cs = p # ps"
      using str_split_not_Nil [of sep cs] by (cases "str_split sep cs") auto
    have "str_join sep (p # ps) = cs" using 2(2) [OF False] ps by simp
    then show ?thesis using ps by (simp add: False str_join_first)
  qed
qed

lemma length_split_arrow: "length (str_split ''-->'' s) = Suc (occurrences ''-->'' s)"
proof (induction "''-->''" s rule: str_split.induct)
  case 1
  then show ?case by simp
next
  case (2 c cs)
  show ?case
  proof (cases "take (length ''-->'') (c # cs) = ''-->''")
    case True
    then have "c # cs = ''-->'' @ drop (length ''-->'') (c # cs)"
      using append_take_drop_id [of "length ''-->''" "c # cs"] by simp
    then obtain rest where rest: "c # cs = ''-->'' @ rest" "drop (length ''-->'') (c # cs) = rest"
      by blast
    have "length (str_split ''-->'' rest) = Suc (occurrences ''-->'' rest)"
      using 2(1) True rest by simp
    moreover have "occurrences ''-->'' (''-->'' @ rest) = Suc (occurrences ''-->'' rest)"
      by simp
    ultimately show ?thesis
      using True rest by simp
  next
    case False
    obtain p ps where ps: "str_split ''-->'' cs = p # ps"
      using str_split_not_Nil [of "''-->''" cs] by (cases "str_split ''-->'' cs") auto
    have "length (str_split ''-->'' cs) = Suc (occurrences ''-->'' cs)"
      using 2(2) False by simp
    moreover have "str_split ''-->'' (c # cs) = (c # p) # ps"
      by (subst str_split.simps) (simp only: False ps simp_thms if_False list.case)
    moreover have "occurrences ''-->'' (c # cs) = occurrences ''-->'' cs"
      by (subst occurrences.simps) (simp only: False if_False add_0)
    ultimately show ?thesis using ps by simp
  qed
qed

lemma parse_equation_fails:
  "(\<exists>err. fst (parse_equation equation self) = Inl err)
     = (occurrences ''-->'' (normalize equation) \<noteq> 1)"
  by (simp add: parse_equation_def Let_def length_split_arrow)

lemma parse_equation_returns:
  assumes "occurrences ''-->'' (normalize equation) = 1"
  shows "\<exists>l r. normalize equation = l @ ''-->'' @ r
           \<and> fst (parse_equation equation self) = Inr (str_split ''+'' l, str_split ''+'' r)"
proof -
  let ?sides = "str_split ''-->'' (normalize equation)"
  have len: "length ?sides = 2" using assms by (simp add: length_split_arrow)
  then obtain l r where sides: "?sides = [l, r]"
    by (cases ?sides; cases "tl ?sides") auto
  have "str_join ''-->'' ?sides = normalize equation" by (rule str_join_split)
  then have "normalize equation = l @ ''-->'' @ r" by (simp add: sides)
  moreover have "fst (parse_equation equation self) = Inr (str_split ''+'' l, str_split ''+'' r)"
    by (simp add: parse_equation_def Let_def sides)
  ultimately show ?thesis by blast
qed

text \<open>
  C4 says that the equation splitter also fails when one of the two halves is empty.
  The code checks the number of pieces only: \<open>-->H2\<close> is split into an empty left half
  and \<open>H2\<close>, and the splitter returns the list of the one empty string as the reactants.
\<close>

theorem parse_equation_empty_half:
  "str_split ''-->'' (normalize ''-->H2'') = ['''', ''H2'']
   \<and> fst (parse_equation ''-->H2'' init) = Inr ([''''], [''H2''])"
  by code_simp

text \<open>
  C4, as the code has it: the equation splitter fails with an error exactly when the
  separator \<open>-->\<close> does not occur exactly once in the normalized input; when it occurs
  exactly once, the splitter returns the two sequences that splitting the left and the
  right half on \<open>+\<close> gives, also when a half is empty.
\<close>

theorem parse_equation_fails_iff:
  "(\<exists>err. fst (parse_equation equation self) = Inl err)
     = (occurrences ''-->'' (normalize equation) \<noteq> 1)
   \<and> (occurrences ''-->'' (normalize equation) = 1 \<longrightarrow>
        (\<exists>l r. normalize equation = l @ ''-->'' @ r
           \<and> fst (parse_equation equation self) = Inr (str_split ''+'' l, str_split ''+'' r)))"
  using parse_equation_fails parse_equation_returns by blast

theorem parse_equation_fails_iff_witness:
  "occurrences ''-->'' (normalize ''Fe + O2 --> Fe2O3'') = 1
   \<and> (\<exists>l r. normalize ''Fe + O2 --> Fe2O3'' = l @ ''-->'' @ r
          \<and> fst (parse_equation ''Fe + O2 --> Fe2O3'' init)
              = Inr (str_split ''+'' l, str_split ''+'' r))"
proof -
  have h: "occurrences ''-->'' (normalize ''Fe + O2 --> Fe2O3'') = 1"
    by code_simp
  show ?thesis
    using h parse_equation_fails_iff [of "''Fe + O2 --> Fe2O3''" init] by blast
qed

subsection \<open>The state of the balancer and the order of the rows\<close>

lemma parse_equation_state:
  "snd (parse_equation equation self)
     = (case fst (parse_equation equation self) of
          Inl err \<Rightarrow> self
        | Inr (reactants, products) \<Rightarrow> self\<lparr>compounds := reactants @ products\<rparr>)"
  by (simp add: parse_equation_def Let_def)

lemma parse_equation_result:
  "fst (parse_equation equation self) = fst (parse_equation equation self')"
  by (simp add: parse_equation_def Let_def)

lemma balance_state: "snd (balance order ns equation self) = snd (parse_equation equation self)"
  by (simp add: balance_def split: prod.splits sum.splits)

lemma balance_result:
  "fst (balance order ns equation self) = fst (balance order ns equation self')"
proof -
  obtain r s where p: "parse_equation equation self = (r, s)"
    by (cases "parse_equation equation self")
  obtain r' s' where p': "parse_equation equation self' = (r', s')"
    by (cases "parse_equation equation self'")
  have "r = r'"
    using parse_equation_result [of equation self self'] p p' by simp
  then show ?thesis
    by (simp add: balance_def p p' split: prod.splits sum.splits)
qed

lemma build_matrix_order:
  assumes "collect_elements reactants {} = Inr S1" and "collect_elements products S1 = Inr S"
    and "order S = element_list"
  shows "build_matrix order reactants products = build_matrix (\<lambda>S. element_list) reactants products"
  using assms by (simp add: build_matrix_def)

lemma balance_order:
  assumes "fst (parse_equation equation self) = Inr (reactants, products)"
    and "collect_elements reactants {} = Inr S1" and "collect_elements products S1 = Inr S"
    and "order S = element_list"
  shows "balance order ns equation self = balance (\<lambda>S. element_list) ns equation self"
proof -
  obtain s where p: "parse_equation equation self = (Inr (reactants, products), s)"
    using assms(1) by (cases "parse_equation equation self") simp
  show ?thesis
    by (simp add: balance_def p build_matrix_order [where order = order, OF assms(2,3,4)])
qed

lemma two_element_orders:
  assumes "set xs = {a, b}" and "distinct xs" and "a \<noteq> b"
  shows "xs = [a, b] \<or> xs = [b, a]"
proof -
  have "length xs = 2"
    using assms distinct_card [of xs] by simp
  then obtain x y where xs: "xs = [x, y]"
    by (cases xs; cases "tl xs") auto
  then show ?thesis using assms by (auto simp: doubleton_eq_iff)
qed

text \<open>
  C9 says that a call to \<open>balance\<close> leaves every field of the instance unchanged. But
  \<open>parse_equation\<close> assigns \<open>self.compounds\<close>: after balancing \<open>Fe+O2-->Fe2O3\<close> on a fresh
  instance, whose list of compounds is empty, the field holds the three compounds.
\<close>

theorem balance_sets_compounds:
  "compounds init = []
   \<and> compounds (snd (balance sorted_list_of_set nullspace ''Fe+O2-->Fe2O3'' init))
       = [''Fe'', ''O2'', ''Fe2O3'']"
  by code_simp

text \<open>
  C9, as the code has it: a call to \<open>balance\<close> changes no field but \<open>compounds\<close>. When
  the equation splitter raises, the instance is left as it was; otherwise \<open>compounds\<close> is
  overwritten with the reactants followed by the products of this call, whatever happens
  afterwards. The value returned, or the exception raised, does not depend on the state
  of the instance before the call.
\<close>

theorem balance_state_effect:
  "snd (balance order ns equation self)
     = (case fst (parse_equation equation self) of
          Inl err \<Rightarrow> self
        | Inr (reactants, products) \<Rightarrow> self\<lparr>compounds := reactants @ products\<rparr>)
   \<and> elements (snd (balance order ns equation self)) = elements self
   \<and> fst (balance order ns equation self) = fst (balance order ns equation self')"
proof -
  have "snd (balance order ns equation self)
     = (case fst (parse_equation equation self) of
          Inl err \<Rightarrow> self
        | Inr (reactants, products) \<Rightarrow> self\<lparr>compounds := reactants @ products\<rparr>)"
    using balance_state parse_equation_state by simp
  moreover from this have "elements (snd (balance order ns equation self)) = elements self"
    by (simp split: sum.splits prod.splits)
  ultimately show ?thesis
    using balance_result by blast
qed

subsection \<open>The scenario \<open>Fe+O2-->Fe2O3\<close>\<close>

text \<open>
  C8 says that \<open>balance\<close> returns for \<open>Fe+O2-->Fe2O3\<close> the string in which the compounds
  of a side are joined by \<open>+\<close> alone. The code joins them with \<open>" + ".join\<close>, a plus sign
  between two spaces, so the string of the claim is not the one returned.
\<close>

theorem balance_iron_oxide_unspaced:
  "fst (balance sorted_list_of_set nullspace ''Fe+O2-->Fe2O3'' init)
     \<noteq> Inr (''4Fe+3O2'' @ to_arrow @ ''2Fe2O3'')"
  by code_simp

text \<open>
  C8, as the code has it: for the input \<open>Fe+O2-->Fe2O3\<close>, in whatever order the rows of
  the two elements are listed, the solver computes the coefficients 4, 3 and 2 and
  \<open>balance\<close> returns \<open>4Fe + 3O2\<close>, the arrow \<open>\to\<close> and \<open>2Fe2O3\<close>: the coefficients are
  put directly before the compounds, a coefficient 1 is left out, and the compounds of
  a side are joined by a plus sign between two spaces.
\<close>

theorem balance_iron_oxide:
  assumes "set (order {''Fe'', ''O''}) = {''Fe'', ''O''}" and "distinct (order {''Fe'', ''O''})"
  shows "(\<exists>matrix element_list.
            build_matrix order [''Fe'', ''O2''] [''Fe2O3''] = Inr (matrix, element_list)
            \<and> solve_matrix nullspace matrix = Inr [4, 3, 2])
       \<and> fst (balance order nullspace ''Fe+O2-->Fe2O3'' self)
           = Inr (''4Fe + 3O2'' @ to_arrow @ ''2Fe2O3'')"
proof -
  have c1: "collect_elements [''Fe'', ''O2''] {} = Inr {''Fe'', ''O''}"
    by code_simp
  have c2: "collect_elements [''Fe2O3''] {''Fe'', ''O''} = Inr {''Fe'', ''O''}"
    by code_simp
  have p: "fst (parse_equation ''Fe+O2-->Fe2O3'' init) = Inr ([''Fe'', ''O2''], [''Fe2O3''])"
    by code_simp
  have ne: "''Fe'' \<noteq> ''O''"
    by simp
  consider (fe) "order {''Fe'', ''O''} = [''Fe'', ''O'']" | (o) "order {''Fe'', ''O''} = [''O'', ''Fe'']"
    using two_element_orders [OF assms ne] by blast
  then show ?thesis
  proof cases
    case fe
    have m: "build_matrix (\<lambda>S. [''Fe'', ''O'']) [''Fe'', ''O2''] [''Fe2O3'']
        = Inr ([[-1, 0, 2], [0, -2, 3]], [''Fe'', ''O''])"
      by code_simp
    have s: "solve_matrix nullspace [[-1, 0, 2], [0, -2, 3]] = Inr [4, 3, 2]"
      by code_simp
    have b: "fst (balance (\<lambda>S. [''Fe'', ''O'']) nullspace ''Fe+O2-->Fe2O3'' init)
        = Inr (''4Fe + 3O2'' @ to_arrow @ ''2Fe2O3'')"
      by code_simp
    show ?thesis
      using m s b build_matrix_order [where order = order, OF c1 c2 fe]
        balance_order [where order = order and ns = nullspace, OF p c1 c2 fe]
        balance_result [of order nullspace "''Fe+O2-->Fe2O3''" self init]
      by simp
  next
    case o
    have m: "build_matrix (\<lambda>S. [''O'', ''Fe'']) [''Fe'', ''O2''] [''Fe2O3'']
        = Inr ([[0, -2, 3], [-1, 0, 2]], [''O'', ''Fe''])"
      by code_simp
    have s: "solve_matrix nullspace [[0, -2, 3], [-1, 0, 2]] = Inr [4, 3, 2]"
      by code_simp
    have b: "fst (balance (\<lambda>S. [''O'', ''Fe'']) nullspace ''Fe+O2-->Fe2O3'' init)
        = Inr (''4Fe + 3O2'' @ to_arrow @ ''2Fe2O3'')"
      by code_simp
    show ?thesis
      using m s b build_matrix_order [where order = order, OF c1 c2 o]
        balance_order [where order = order and ns = nullspace, OF p c1 c2 o]
        balance_result [of order nullspace "''Fe+O2-->Fe2O3''" self init]
      by simp
  qed
qed

theorem balance_iron_oxide_witness:
  "set (sorted_list_of_set {''Fe'', ''O''}) = {''Fe'', ''O''}
   \<and> distinct (sorted_list_of_set {''Fe'', ''O''})
   \<and> fst (balance sorted_list_of_set nullspace ''Fe+O2-->Fe2O3'' init)
       = Inr (''4Fe + 3O2'' @ to_arrow @ ''2Fe2O3'')"
proof -
  have h1: "set (sorted_list_of_set {''Fe'', ''O''}) = {''Fe'', ''O''}"
    by simp
  have h2: "distinct (sorted_list_of_set {''Fe'', ''O''})"
    by simp
  show ?thesis
    using h1 h2 balance_iron_oxide [where order = sorted_list_of_set and self = init, OF h1 h2] by simp
qed

subsection \<open>Coefficients that are not positive\<close>

text \<open>
  C2. Whenever \<open>balance\<close> returns, every entry of the coefficient vector is a strictly
  positive integer, and the solver raises an error when an entry is not positive after
  the sign normalization.

  The code does not keep this. Under its comment \<open>Ensure all coefficients are positive\<close>
  it only negates the vector when the minimum is negative, and it checks nothing
  afterwards. For \<open>H2+O2-->H2\<close> the null space of the matrix is spanned by the vector
  1, 0, 1: the solver returns it, and \<open>balance\<close> returns an equation with the coefficient 0.
\<close>

theorem balance_zero_coefficient:
  "build_matrix sorted_list_of_set [''H2'', ''O2''] [''H2'']
     = Inr ([[-2, 0, 2], [0, -2, 0]], [''H'', ''O''])
   \<and> solve_matrix nullspace [[-2, 0, 2], [0, -2, 0]] = Inr [1, 0, 1]
   \<and> fst (balance sorted_list_of_set nullspace ''H2+O2-->H2'' init)
       = Inr (''H2 + 0O2'' @ to_arrow @ ''H2'')"
  by code_simp

subsection \<open>The null-space solver\<close>


lemma foldl_lcm_dvd_init: "a dvd foldl lcm a (ds :: int list)"
proof (induction ds arbitrary: a)
  case Nil
  then show ?case by simp
next
  case (Cons d ds)
  have "a dvd lcm a d" by simp
  also have "lcm a d dvd foldl lcm (lcm a d) ds" by (rule Cons.IH)
  finally show ?case by simp
qed

lemma foldl_lcm_dvd: "d \<in> set ds \<Longrightarrow> d dvd foldl lcm a (ds :: int list)"
proof (induction ds arbitrary: a)
  case Nil
  then show ?case by simp
next
  case (Cons e ds)
  show ?case
  proof (cases "d = e")
    case True
    have "d dvd lcm a d" by simp
    also have "lcm a d dvd foldl lcm (lcm a d) ds" by (rule foldl_lcm_dvd_init)
    finally show ?thesis using True by simp
  next
    case False
    then have "d \<in> set ds" using Cons.prems by simp
    then show ?thesis using Cons.IH by simp
  qed
qed

lemma rat_int_of_int: "rat_int (of_int n) = n"
  by (simp add: rat_int_def)

lemma rat_times_denominator_multiple:
  assumes "snd (quotient_of x) dvd L"
  shows "of_int (rat_int (x * of_int L)) = x * of_int L"
proof -
  obtain a b where q: "quotient_of x = (a, b)" by (cases "quotient_of x")
  then have b: "b > 0" and x: "x = of_int a / of_int b"
    using quotient_of_denom_pos quotient_of_div by auto
  from assms q obtain k where k: "L = b * k" by (auto simp: dvd_def)
  have "x * of_int L = of_int (a * k)"
    using b by (simp add: x k)
  then show ?thesis
    by (simp only: rat_int_of_int)
qed


lemma foldl_gcd_dvd_init: "foldl gcd a xs dvd (a :: int)"
proof (induction xs arbitrary: a)
  case Nil
  then show ?case by simp
next
  case (Cons x xs)
  have "foldl gcd (gcd a x) xs dvd gcd a x" by (rule Cons.IH)
  also have "gcd a x dvd a" by simp
  finally show ?case by simp
qed

lemma foldl_gcd_dvd: "x \<in> set xs \<Longrightarrow> foldl gcd a xs dvd (x :: int)"
proof (induction xs arbitrary: a)
  case Nil
  then show ?case by simp
next
  case (Cons y xs)
  show ?case
  proof (cases "x = y")
    case True
    have "foldl gcd (gcd a y) xs dvd gcd a y" by (rule foldl_gcd_dvd_init)
    also have "gcd a y dvd y" by simp
    finally show ?thesis using True by simp
  next
    case False
    then have "x \<in> set xs" using Cons.prems by simp
    then show ?thesis using Cons.IH by simp
  qed
qed

lemma foldl_gcd_greatest:
  "e dvd a \<Longrightarrow> \<forall>x \<in> set xs. e dvd x \<Longrightarrow> e dvd foldl gcd a (xs :: int list)"
  by (induction xs arbitrary: a) simp_all

lemma Gcd_quotients:
  assumes "g \<noteq> 0" and "\<forall>c \<in> set cs. g dvd c" and "\<And>e. \<forall>c \<in> set cs. e dvd c \<Longrightarrow> e dvd g"
  shows "Gcd (set (map (\<lambda>c. c div g) cs)) = (1 :: int)"
proof -
  let ?d = "Gcd (set (map (\<lambda>c. c div g) cs))"
  have "\<forall>c \<in> set cs. ?d * g dvd c"
  proof
    fix c assume c: "c \<in> set cs"
    then have "?d dvd c div g" by (intro Gcd_dvd) simp
    then have "?d * g dvd (c div g) * g" by (rule mult_dvd_mono) simp
    moreover have "(c div g) * g = c" using assms(2) c by simp
    ultimately show "?d * g dvd c" by simp
  qed
  then have "?d * g dvd g" by (rule assms(3))
  then have "?d * g dvd 1 * g" by simp
  then have "?d dvd 1" using assms(1) by (simp only: dvd_mult_cancel_right) simp
  moreover have "0 \<le> ?d" by simp
  ultimately show ?thesis by simp
qed

lemma solve_matrix_unfold:
  "solve_matrix ns matrix =
     (case ns matrix of
        [] \<Rightarrow> Inl (Exception ''No solution found for the matrix.'')
      | sol # _ \<Rightarrow>
          if scale_to_integers sol = [] then Inl (ValueError ''min() arg is an empty sequence'')
          else if gcd_of (sign_normalize (scale_to_integers sol)) = 0 then Inl ZeroDivisionError
          else Inr (map (\<lambda>c. c div gcd_of (sign_normalize (scale_to_integers sol)))
                 (sign_normalize (scale_to_integers sol))))"
  unfolding solve_matrix_def scale_to_integers_def sign_normalize_def gcd_of_def Let_def
  by (rule refl)

lemma sign_normalize_Nil: "sign_normalize cs = [] \<longleftrightarrow> cs = []"
  by (simp add: sign_normalize_def)

lemma gcd_of_dvd: "c \<in> set cs \<Longrightarrow> gcd_of cs dvd c"
proof -
  assume c: "c \<in> set cs"
  then have "c = hd cs \<or> c \<in> set (tl cs)" by (cases cs) auto
  then show ?thesis
    unfolding gcd_of_def using foldl_gcd_dvd_init foldl_gcd_dvd by blast
qed

lemma gcd_of_greatest: "cs \<noteq> [] \<Longrightarrow> \<forall>c \<in> set cs. e dvd c \<Longrightarrow> e dvd gcd_of cs"
proof -
  assume cs: "cs \<noteq> []" and e: "\<forall>c \<in> set cs. e dvd c"
  have "e dvd hd cs" using cs e by simp
  moreover have "\<forall>x \<in> set (tl cs). e dvd x" using cs e by (auto dest: list.set_sel(2))
  ultimately show ?thesis unfolding gcd_of_def by (rule foldl_gcd_greatest)
qed


lemma solve_matrix_Inr:
  assumes "solve_matrix ns matrix = Inr result"
  obtains sol rest where "ns matrix = sol # rest" and "scale_to_integers sol \<noteq> []"
    and "gcd_of (sign_normalize (scale_to_integers sol)) \<noteq> 0"
    and "result = map (\<lambda>c. c div gcd_of (sign_normalize (scale_to_integers sol)))
                    (sign_normalize (scale_to_integers sol))"
  using assms unfolding solve_matrix_unfold
  by (simp split: list.splits if_splits)

text \<open>
  C5. For every coefficient vector that the solver returns, the greatest common divisor
  of all its entries is 1. This holds whatever vectors the call of \<open>nullspace()\<close> returns.
\<close>

theorem solve_matrix_gcd_one:
  assumes "solve_matrix ns matrix = Inr coeffs"
  shows "Gcd (set coeffs) = 1"
proof -
  from assms obtain sol rest where ne: "scale_to_integers sol \<noteq> []"
    and g: "gcd_of (sign_normalize (scale_to_integers sol)) \<noteq> 0"
    and r: "coeffs = map (\<lambda>c. c div gcd_of (sign_normalize (scale_to_integers sol)))
                    (sign_normalize (scale_to_integers sol))"
    by (rule solve_matrix_Inr)
  let ?cs = "sign_normalize (scale_to_integers sol)"
  have cs: "?cs \<noteq> []" using ne by (simp add: sign_normalize_Nil)
  have "\<forall>c \<in> set ?cs. gcd_of ?cs dvd c"
    using gcd_of_dvd by blast
  moreover have "e dvd gcd_of ?cs" if "\<forall>c \<in> set ?cs. e dvd c" for e
    using cs that by (rule gcd_of_greatest)
  ultimately show ?thesis
    unfolding r using g by (intro Gcd_quotients) blast+
qed

theorem solve_matrix_gcd_one_witness:
  "solve_matrix nullspace [[-1, 0, 2], [0, -2, 3]] = Inr [4, 3, 2] \<and> Gcd (set [4, 3, 2 :: int]) = 1"
proof -
  have h: "solve_matrix nullspace [[-1, 0, 2], [0, -2, 3]] = Inr [4, 3, 2]"
    by code_simp
  show ?thesis
    using h solve_matrix_gcd_one [OF h] by simp
qed

lemma foldl_update_length:
  "length (foldl (\<lambda>vec (r, c). vec[c := h vec r c]) v ps) = length v"
  by (induction ps arbitrary: v) (simp_all split: prod.splits)


lemma basis_vector_length: "length (basis_vector cols pivots reduced f) = cols"
  unfolding basis_vector_def
  using foldl_update_length [of "\<lambda>vec r c. vec ! c - reduced ! r ! f"] by simp



lemma scale_to_integers_length: "length (scale_to_integers sol) = length sol"
  by (simp add: scale_to_integers_def)








subsection \<open>The model of \<open>nullspace()\<close> returns vectors of the null space\<close>

text \<open>
  The row operations of \<open>rref\<close> keep the invariant and lose no solution: a vector that
  every row of the reduced matrix maps to 0 is mapped to 0 by every row of the matrix
  that \<open>rref\<close> started from. Each basis vector that \<open>nullspace\<close> builds is mapped to 0 by
  every row of the reduced matrix. So \<open>nullspace\<close> meets, for every rectangular matrix,
  what the conservation property below assumes of \<open>nullspace()\<close>.
\<close>

lemma dot_Nil [simp]: "dot [] v = 0" "dot r [] = 0"
  by (simp_all add: dot_def)

lemma dot_Cons [simp]: "dot (a # r) (x # v) = a * x + dot r v"
  by (simp add: dot_def)

lemma dot_scaled: "dot (map (\<lambda>x. x / k) r) v = dot r v / k"
proof (induction r arbitrary: v)
  case Nil
  then show ?case by simp
next
  case (Cons a r)
  then show ?case by (cases v) (simp_all add: add_divide_distrib)
qed

lemma dot_eliminated:
  "length r = length p \<Longrightarrow> dot (map2 (\<lambda>x y. x - k * y) r p) v = dot r v - k * dot p v"
proof (induction r p arbitrary: v rule: list_induct2)
  case Nil
  then show ?case by simp
next
  case (Cons a r b p)
  then show ?case by (cases v) (simp_all add: algebra_simps)
qed

lemma dot_eliminate:
  "length r = length p \<Longrightarrow> dot (eliminate c p r) v = dot r v - r ! c * dot p v"
  unfolding eliminate_def by (rule dot_eliminated)

lemma dot_update:
  "c < length v \<Longrightarrow> length r = length v \<Longrightarrow> dot r (v[c := y]) = dot r v + r ! c * (y - v ! c)"
proof (induction r arbitrary: v c)
  case Nil
  then show ?case by simp
next
  case (Cons a r)
  then obtain x v' where v: "v = x # v'" by (cases v) auto
  show ?case
  proof (cases c)
    case 0
    then show ?thesis by (simp add: v algebra_simps)
  next
    case (Suc c')
    then show ?thesis using Cons by (simp add: v)
  qed
qed

lemma dot_zero: "dot r (replicate n 0) = 0"
proof (induction r arbitrary: n)
  case Nil
  then show ?case by simp
next
  case (Cons a r)
  then show ?case by (cases n) simp_all
qed

lemma dot_unit: "f < n \<Longrightarrow> length r = n \<Longrightarrow> dot r ((replicate n 0)[f := 1]) = r ! f"
  using dot_update [of f "replicate n 0" r 1] by (simp add: dot_zero)

lemma dot_zero_row: "\<forall>col < length r. r ! col = 0 \<Longrightarrow> dot r v = 0"
proof (induction r arbitrary: v)
  case Nil
  then show ?case by simp
next
  case (Cons a r)
  have "a = 0" using Cons.prems by auto
  moreover have "\<forall>col < length r. r ! col = 0" using Cons.prems by auto
  ultimately show ?case using Cons.IH by (cases v) simp_all
qed

lemma length_eliminate: "length r = length p \<Longrightarrow> length (eliminate c p r) = length r"
  by (simp add: eliminate_def)

lemma nth_eliminate:
  "length r = length p \<Longrightarrow> col < length r \<Longrightarrow> eliminate c p r ! col = r ! col - r ! c * p ! col"
  by (simp add: eliminate_def)

lemma find_pivot_None: "find_pivot c R = None \<Longrightarrow> \<forall>r \<in> set R. r ! c = 0"
  by (induction R) (auto split: if_splits option.splits)

lemma find_pivot_Some:
  "find_pivot c R = Some (r, others) \<Longrightarrow> r ! c \<noteq> 0 \<and> set R = insert r (set others)"
proof (induction R arbitrary: others)
  case Nil
  then show ?case by simp
next
  case (Cons x R)
  show ?case
  proof (cases "x ! c \<noteq> 0")
    case True
    then show ?thesis using Cons.prems by auto
  next
    case False
    then obtain o' where f: "find_pivot c R = Some (r, o')" and o: "others = x # o'"
      using Cons.prems by (auto split: option.splits)
    then show ?thesis using Cons.IH [OF f] by auto
  qed
qed

lemma rref_inv_free:
  assumes "rref_inv w c pv P R" and "find_pivot c R = None"
  shows "rref_inv w (Suc c) pv P R"
proof -
  have z: "\<forall>r \<in> set R. r ! c = 0" using assms(2) by (rule find_pivot_None)
  have "\<forall>r \<in> set R. \<forall>col < Suc c. r ! col = 0"
    using assms(1) z by (auto simp: rref_inv_def less_Suc_eq)
  moreover have "\<forall>j < length pv. pv ! j < Suc c"
    using assms(1) by (auto simp: rref_inv_def less_Suc_eq)
  ultimately show ?thesis using assms(1) by (simp add: rref_inv_def)
qed

lemma rref_inv_pivot:
  assumes inv: "rref_inv w c pv P R" and c: "c < w"
    and f: "find_pivot c R = Some (r, others)"
    and p: "p = map (\<lambda>x. x / r ! c) r"
  shows "rref_inv w (Suc c) (pv @ [c]) (map (eliminate c p) P @ [p]) (map (eliminate c p) others)"
proof -
  have rc: "r ! c \<noteq> 0" and R: "set R = insert r (set others)"
    using find_pivot_Some [OF f] by simp_all
  have lenP: "\<forall>x \<in> set P. length x = w" and lenR: "\<forall>x \<in> set R. length x = w"
    and lpv: "length pv = length P"
    and delta: "\<forall>i < length P. \<forall>j < length P. P ! i ! (pv ! j) = (if i = j then 1 else 0)"
    and pvc: "\<forall>j < length pv. pv ! j < c"
    and Rz: "\<forall>x \<in> set R. \<forall>col < c. x ! col = 0"
    using inv by (auto simp: rref_inv_def)
  have lr: "length r = w" using lenR R by simp
  have lp: "length p = w" using lr p by simp
  have pn: "p ! col = r ! col / r ! c" if "col < w" for col
    using that lr p by simp
  have pc: "p ! c = 1" using pn [OF c] rc by simp
  have pz: "p ! col = 0" if "col < c" for col
  proof -
    have "r ! col = 0" using Rz R that by simp
    moreover have "col < w" using that c by simp
    ultimately show ?thesis using pn by simp
  qed
  have le: "length (eliminate c p x) = w" if "length x = w" for x
    using that lp by (simp add: length_eliminate)
  have ne: "eliminate c p x ! col = x ! col - x ! c * p ! col" if "length x = w" "col < w" for x col
    using that lp by (simp add: nth_eliminate)
  let ?P = "map (eliminate c p) P @ [p]"
  let ?R = "map (eliminate c p) others"
  let ?pv = "pv @ [c]"
  have rows: "\<forall>x \<in> set (?P @ ?R). length x = w"
    using lenP lenR R le lp by auto
  have pvlt: "\<forall>j < length ?pv. ?pv ! j < Suc c"
    using pvc by (auto simp: nth_append less_Suc_eq)
  have Rzero: "\<forall>x \<in> set ?R. \<forall>col < Suc c. x ! col = 0"
  proof (intro ballI allI impI)
    fix y col assume y: "y \<in> set ?R" and col: "col < Suc c"
    then obtain x where x: "x \<in> set others" and yx: "y = eliminate c p x" by auto
    have lx: "length x = w" using x lenR R by simp
    have colw: "col < w" using col c by simp
    show "y ! col = 0"
    proof (cases "col = c")
      case True
      then show ?thesis using ne [OF lx colw] pc by (simp add: yx)
    next
      case False
      then have cc: "col < c" using col by simp
      have "x ! col = 0" using Rz R x cc by simp
      then show ?thesis using ne [OF lx colw] pz [OF cc] by (simp add: yx)
    qed
  qed
  have dl: "?P ! i ! (?pv ! j) = (if i = j then 1 else 0)"
    if i: "i < Suc (length P)" and j: "j < Suc (length P)" for i j
  proof (cases "i < length P")
    case iP: True
    have lx: "length (P ! i) = w" using lenP iP by simp
    have Pi: "?P ! i = eliminate c p (P ! i)" using iP by (simp add: nth_append)
    show ?thesis
    proof (cases "j < length P")
      case jP: True
      have pvj: "?pv ! j = pv ! j" using jP lpv by (simp add: nth_append)
      have jc: "pv ! j < c" using pvc jP lpv by simp
      then have jw: "pv ! j < w" using c by simp
      have "eliminate c p (P ! i) ! (pv ! j) = P ! i ! (pv ! j) - P ! i ! c * p ! (pv ! j)"
        using lx jw by (rule ne)
      then show ?thesis using pz [OF jc] delta iP jP by (simp add: Pi pvj)
    next
      case False
      then have jj: "j = length P" using j by simp
      have pvj: "?pv ! j = c" using jj lpv by (simp add: nth_append)
      have "eliminate c p (P ! i) ! c = P ! i ! c - P ! i ! c * p ! c"
        using lx c by (rule ne)
      moreover have "i \<noteq> j" using iP jj by simp
      ultimately show ?thesis using pc by (simp add: Pi pvj)
    qed
  next
    case False
    then have ii: "i = length P" using i by simp
    have Pi: "?P ! i = p" using ii by (simp add: nth_append)
    show ?thesis
    proof (cases "j < length P")
      case jP: True
      have pvj: "?pv ! j = pv ! j" using jP lpv by (simp add: nth_append)
      have jc: "pv ! j < c" using pvc jP lpv by simp
      have "i \<noteq> j" using jP ii by simp
      then show ?thesis using pz [OF jc] by (simp add: Pi pvj)
    next
      case False
      then have jj: "j = length P" using j by simp
      have pvj: "?pv ! j = c" using jj lpv by (simp add: nth_append)
      have "i = j" using ii jj by simp
      then show ?thesis using pc Pi pvj by simp
    qed
  qed
  show ?thesis
    unfolding rref_inv_def using rows lpv dl pvlt Rzero by simp
qed

lemma solutions_pivot:
  assumes inv: "rref_inv w c pv P R"
    and f: "find_pivot c R = Some (r, others)"
    and p: "p = map (\<lambda>x. x / r ! c) r"
    and sol: "\<forall>x \<in> set ((map (eliminate c p) P @ [p]) @ map (eliminate c p) others). dot x v = 0"
  shows "\<forall>x \<in> set (P @ R). dot x v = 0"
proof -
  have rc: "r ! c \<noteq> 0" and R: "set R = insert r (set others)"
    using find_pivot_Some [OF f] by simp_all
  have len: "\<forall>x \<in> set (P @ R). length x = w"
    using inv by (simp add: rref_inv_def)
  have lp: "length p = w" using len R p by simp
  have dp: "dot p v = 0" using sol by simp
  have "dot p v = dot r v / r ! c" unfolding p by (rule dot_scaled)
  then have dr: "dot r v = 0" using dp rc by simp
  have de: "dot x v = 0" if "x \<in> set P \<union> set others" for x
  proof -
    have "length x = length p" using that len R lp by auto
    then have "dot (eliminate c p x) v = dot x v - x ! c * dot p v" by (rule dot_eliminate)
    moreover have "dot (eliminate c p x) v = 0" using that sol by auto
    ultimately show ?thesis using dp by simp
  qed
  show ?thesis using de dr R by auto
qed

lemma rref_result:
  "rref n c P R = (pivs, reduced) \<Longrightarrow> rref_inv (c + n) c pv P R \<Longrightarrow>
     \<exists>P' R'. reduced = P' @ R'
       \<and> rref_inv (c + n) (c + n) (pv @ pivs) P' R'
       \<and> (\<forall>v. (\<forall>x \<in> set reduced. dot x v = 0) \<longrightarrow> (\<forall>x \<in> set (P @ R). dot x v = 0))"
proof (induction n arbitrary: c P R pv pivs reduced)
  case 0
  then show ?case by auto
next
  case (Suc n)
  show ?case
  proof (cases "find_pivot c R")
    case None
    have r: "rref n (Suc c) P R = (pivs, reduced)" using Suc.prems(1) None by simp
    have "rref_inv (Suc c + n) (Suc c) pv P R"
      using Suc.prems(2) None by (simp add: rref_inv_free)
    from Suc.IH [OF r this] show ?thesis by simp
  next
    case (Some a)
    obtain r others where a: "a = (r, others)" by (cases a)
    define p where "p = map (\<lambda>x. x / r ! c) r"
    let ?P = "map (eliminate c p) P @ [p]"
    let ?R = "map (eliminate c p) others"
    have f: "find_pivot c R = Some (r, others)" using Some a by simp
    obtain pivs' where r: "rref n (Suc c) ?P ?R = (pivs', reduced)" and pivs: "pivs = c # pivs'"
      using Suc.prems(1) f by (auto simp: p_def Let_def split: prod.splits)
    have "rref_inv (c + Suc n) (Suc c) (pv @ [c]) ?P ?R"
      using Suc.prems(2) _ f p_def by (rule rref_inv_pivot) simp
    then have inv': "rref_inv (Suc c + n) (Suc c) (pv @ [c]) ?P ?R" by simp
    from Suc.IH [OF r inv'] obtain P' R' where red: "reduced = P' @ R'"
      and fin: "rref_inv (Suc c + n) (Suc c + n) ((pv @ [c]) @ pivs') P' R'"
      and sol: "\<forall>v. (\<forall>x \<in> set reduced. dot x v = 0) \<longrightarrow> (\<forall>x \<in> set (?P @ ?R). dot x v = 0)"
      by blast
    have "\<forall>x \<in> set (P @ R). dot x v = 0" if "\<forall>x \<in> set reduced. dot x v = 0" for v
    proof -
      have "\<forall>x \<in> set (?P @ ?R). dot x v = 0" using sol that by blast
      then show ?thesis using solutions_pivot [OF Suc.prems(2) f p_def] by blast
    qed
    then show ?thesis using red fin pivs by auto
  qed
qed

lemma dot_foldl:
  "\<forall>(j, c) \<in> set ps. c < length v \<Longrightarrow> length r = length v \<Longrightarrow>
     dot r (foldl (\<lambda>vec (j, c). vec[c := vec ! c - g j]) v ps)
       = dot r v - (\<Sum>(j, c) \<leftarrow> ps. r ! c * g j)"
proof (induction ps arbitrary: v)
  case Nil
  then show ?case by simp
next
  case (Cons a ps)
  obtain j c where a: "a = (j, c)" by (cases a)
  have c: "c < length v" using Cons.prems(1) a by simp
  let ?v = "v[c := v ! c - g j]"
  have "dot r (foldl (\<lambda>vec (j, c). vec[c := vec ! c - g j]) ?v ps)
      = dot r ?v - (\<Sum>(j, c) \<leftarrow> ps. r ! c * g j)"
    using Cons.prems by (intro Cons.IH) simp_all
  moreover have "dot r ?v = dot r v + r ! c * ((v ! c - g j) - v ! c)"
    using c Cons.prems(2) by (rule dot_update)
  ultimately show ?case by (simp add: a algebra_simps)
qed

lemma zip_upt_nth: "zip [0..<length xs] xs = map (\<lambda>j. (j, xs ! j)) [0..<length xs]"
  by (rule nth_equalityI) simp_all

lemma sum_zip_upt:
  "(\<Sum>(j, c) \<leftarrow> zip [0..<length xs] xs. h j c) = (\<Sum>j < length xs. (h j (xs ! j) :: rat))"
proof -
  have "(\<Sum>(j, c) \<leftarrow> zip [0..<length xs] xs. h j c)
      = sum_list (map (\<lambda>j. h j (xs ! j)) [0..<length xs])"
    by (simp add: zip_upt_nth comp_def)
  also have "\<dots> = (\<Sum>j \<in> set [0..<length xs]. h j (xs ! j))"
    by (rule interv_sum_list_conv_sum_set_nat)
  finally show ?thesis by (simp add: lessThan_atLeast0)
qed

lemma basis_vector_dot:
  assumes "length r = cols" and "f < cols" and "\<forall>j < length pivots. pivots ! j < cols"
  shows "dot r (basis_vector cols pivots reduced f)
       = r ! f - (\<Sum>j < length pivots. r ! (pivots ! j) * reduced ! j ! f)"
proof -
  let ?v = "(replicate cols (0 :: rat))[f := 1]"
  have "\<forall>(j, c) \<in> set (zip [0..<length pivots] pivots). c < length ?v"
    using assms(3) by (auto simp: set_zip)
  then have "dot r (foldl (\<lambda>vec (j, c). vec[c := vec ! c - reduced ! j ! f]) ?v
                 (zip [0..<length pivots] pivots))
      = dot r ?v - (\<Sum>(j, c) \<leftarrow> zip [0..<length pivots] pivots. r ! c * reduced ! j ! f)"
    using assms(1) by (intro dot_foldl) simp_all
  then show ?thesis
    using assms(1,2) by (simp add: basis_vector_def dot_unit sum_zip_upt)
qed

lemma basis_vector_solves:
  assumes inv: "rref_inv cols cols pivots P' R'" and red: "reduced = P' @ R'"
    and f: "f < cols" and x: "x \<in> set reduced"
  shows "dot x (basis_vector cols pivots reduced f) = 0"
proof -
  have len: "\<forall>r \<in> set (P' @ R'). length r = cols" and k: "length pivots = length P'"
    and delta: "\<forall>i < length P'. \<forall>j < length P'. P' ! i ! (pivots ! j) = (if i = j then 1 else 0)"
    and pv: "\<forall>j < length pivots. pivots ! j < cols"
    and Rz: "\<forall>r \<in> set R'. \<forall>col < cols. r ! col = 0"
    using inv by (auto simp: rref_inv_def)
  have lx: "length x = cols" using len x red by simp
  have d: "dot x (basis_vector cols pivots reduced f)
      = x ! f - (\<Sum>j < length pivots. x ! (pivots ! j) * reduced ! j ! f)"
    using lx f pv by (rule basis_vector_dot)
  from x red consider (P) i where "i < length P'" "x = P' ! i" | (R) "x \<in> set R'"
    by (auto simp: in_set_conv_nth)
  then show ?thesis
  proof cases
    case P
    have "(\<Sum>j < length pivots. x ! (pivots ! j) * reduced ! j ! f)
        = (\<Sum>j < length pivots. if j = i then reduced ! j ! f else 0)"
      using P delta k by (intro sum.cong) auto
    also have "\<dots> = reduced ! i ! f"
      using P(1) k by simp
    also have "\<dots> = x ! f"
      using P red by (simp add: nth_append)
    finally show ?thesis using d by simp
  next
    case R
    have "x ! f = 0" using R Rz f by simp
    moreover have "(\<Sum>j < length pivots. x ! (pivots ! j) * reduced ! j ! f) = 0"
      using R Rz pv by (intro sum.neutral) simp
    ultimately show ?thesis using d by simp
  qed
qed

lemma dot_of_int: "dot (map of_int row) v = (\<Sum>(a, x) \<leftarrow> zip row v. of_int a * x)"
proof (induction row arbitrary: v)
  case Nil
  then show ?case by simp
next
  case (Cons a row)
  then show ?case by (cases v) simp_all
qed

lemma nullspace_sound:
  assumes "\<forall>row \<in> set matrix. length row = length (hd matrix)"
  shows "list_all (null_vector matrix) (nullspace matrix)"
proof -
  define cols where "cols = (case matrix of [] \<Rightarrow> 0 | row # _ \<Rightarrow> length row)"
  let ?A = "map (map rat_of_int) matrix"
  obtain pivots reduced where r: "rref cols 0 [] ?A = (pivots, reduced)"
    by (cases "rref cols 0 [] ?A")
  have rect: "\<forall>row \<in> set matrix. length row = cols"
    using assms by (cases matrix) (simp_all add: cols_def)
  have "rref_inv (0 + cols) 0 [] [] ?A"
    using rect by (simp add: rref_inv_def)
  from rref_result [OF r this] obtain P' R' where red: "reduced = P' @ R'"
    and inv: "rref_inv cols cols pivots P' R'"
    and sol: "\<forall>v. (\<forall>x \<in> set reduced. dot x v = 0) \<longrightarrow> (\<forall>x \<in> set ?A. dot x v = 0)"
    by auto
  have ns: "nullspace matrix
      = map (basis_vector cols pivots reduced) (filter (\<lambda>i. i \<notin> set pivots) [0..<cols])"
    unfolding nullspace_def Let_def cols_def [symmetric] r by simp
  have "null_vector matrix v" if "v \<in> set (nullspace matrix)" for v
  proof -
    from that ns obtain f where f: "f < cols" and v: "v = basis_vector cols pivots reduced f"
      by auto
    have "\<forall>x \<in> set reduced. dot x v = 0"
      unfolding v using inv red f by (intro ballI basis_vector_solves)
    then have "\<forall>x \<in> set ?A. dot x v = 0" using sol by blast
    then have "\<forall>row \<in> set matrix. (\<Sum>(a, x) \<leftarrow> zip row v. of_int a * x) = 0"
      by (simp add: dot_of_int)
    moreover have "length v = cols" unfolding v by (rule basis_vector_length)
    ultimately show ?thesis using rect by (simp add: null_vector_def list_all_iff)
  qed
  then show ?thesis by (simp add: list_all_iff)
qed
subsection \<open>Conservation of the elements\<close>

lemma collect_elements_Inr:
  "collect_elements cs A = Inr S \<Longrightarrow> S = A \<union> (\<Union>c \<in> set cs. element_keys c)"
proof (induction cs arbitrary: A)
  case Nil
  then show ?case by simp
next
  case (Cons c cs)
  from Cons.prems obtain elems where p: "parse_compound c = Inr elems"
    and r: "collect_elements cs (A \<union> set (map fst elems)) = Inr S"
    by (simp split: sum.splits)
  have "S = (A \<union> set (map fst elems)) \<union> (\<Union>c \<in> set cs. element_keys c)"
    using r by (rule Cons.IH)
  then show ?case by (auto simp: element_keys_def p)
qed

lemma row_entries_Inr:
  "row_entries negative element cs = Inr row \<Longrightarrow>
     row = map (\<lambda>c. if negative then - parsed_count c element else parsed_count c element) cs"
proof (induction cs arbitrary: row)
  case Nil
  then show ?case by simp
next
  case (Cons c cs)
  from Cons.prems obtain elems row' where p: "parse_compound c = Inr elems"
    and r: "row_entries negative element cs = Inr row'"
    and row: "row = (if negative then - dict_get elems element else dict_get elems element) # row'"
    by (auto split: sum.splits)
  have "row' = map (\<lambda>c. if negative then - parsed_count c element else parsed_count c element) cs"
    using r by (rule Cons.IH)
  then show ?case by (simp add: row parsed_count_def p)
qed

lemma build_rows_Inr:
  "build_rows es reactants products = Inr matrix \<Longrightarrow>
     matrix = map (matrix_row reactants products) es"
proof (induction es arbitrary: matrix)
  case Nil
  then show ?case by simp
next
  case (Cons e es)
  from Cons.prems obtain row1 row2 m where r1: "row_entries True e reactants = Inr row1"
    and r2: "row_entries False e products = Inr row2"
    and m: "build_rows es reactants products = Inr m"
    and matrix: "matrix = (row1 @ row2) # m"
    by (auto split: sum.splits)
  have "m = map (matrix_row reactants products) es" using m by (rule Cons.IH)
  then show ?case
    using row_entries_Inr [OF r1] row_entries_Inr [OF r2]
    by (simp add: matrix matrix_row_def)
qed

lemma build_matrix_Inr:
  assumes "build_matrix order reactants products = Inr (matrix, element_list)"
  shows "element_list = order (\<Union>c \<in> set (reactants @ products). element_keys c)"
    and "matrix = map (matrix_row reactants products) element_list"
proof -
  from assms obtain S1 S where s1: "collect_elements reactants {} = Inr S1"
    and s: "collect_elements products S1 = Inr S"
    and m: "build_rows (order S) reactants products = Inr matrix"
    and es: "element_list = order S"
    by (auto simp: build_matrix_def Let_def split: sum.splits)
  have "S = (\<Union>c \<in> set (reactants @ products). element_keys c)"
    using collect_elements_Inr [OF s1] collect_elements_Inr [OF s] by auto
  then show "element_list = order (\<Union>c \<in> set (reactants @ products). element_keys c)"
    using es by simp
  show "matrix = map (matrix_row reactants products) element_list"
    using build_rows_Inr [OF m] es by simp
qed

lemma build_matrix_null_vectors:
  assumes "build_matrix order reactants products = Inr (matrix, element_list)"
  shows "list_all (null_vector matrix) (nullspace matrix)"
proof (rule nullspace_sound)
  have "matrix = map (matrix_row reactants products) element_list"
    using assms by (rule build_matrix_Inr(2))
  then show "\<forall>row \<in> set matrix. length row = length (hd matrix)"
    by (cases element_list) (auto simp: matrix_row_def)
qed

lemma finite_element_keys: "finite (\<Union>c \<in> set cs. element_keys c)"
  by (auto simp: element_keys_def split: sum.splits)

lemma scaled_dot:
  "\<forall>x \<in> set v. of_int (f x) = x * (L :: rat) \<Longrightarrow>
     of_int (\<Sum>(a, c) \<leftarrow> zip row (map f v). a * c) = (\<Sum>(a, x) \<leftarrow> zip row v. of_int a * x) * L"
proof (induction row arbitrary: v)
  case Nil
  then show ?case by simp
next
  case (Cons a row)
  show ?case
  proof (cases v)
    case Nil
    then show ?thesis by simp
  next
    case (Cons x v')
    have "of_int (\<Sum>(a, c) \<leftarrow> zip row (map f v'). a * c)
        = (\<Sum>(a, x) \<leftarrow> zip row v'. of_int a * x) * L"
      using Cons.prems Cons by (intro Cons.IH) simp
    moreover have "of_int (f x) = x * L" using Cons.prems Cons by simp
    ultimately show ?thesis using Cons by (simp add: algebra_simps)
  qed
qed

lemma negated_dot:
  "(\<Sum>(a, c) \<leftarrow> zip row (map uminus cs). a * c) = - (\<Sum>(a, c) \<leftarrow> zip row cs. a * (c :: int))"
proof (induction row arbitrary: cs)
  case Nil
  then show ?case by simp
next
  case (Cons a row)
  then show ?case by (cases cs) simp_all
qed

lemma divided_dot:
  "\<forall>c \<in> set cs. g dvd c \<Longrightarrow>
     (\<Sum>(a, c) \<leftarrow> zip row (map (\<lambda>c. c div g) cs). a * c) * g = (\<Sum>(a, c) \<leftarrow> zip row cs. a * (c :: int))"
proof (induction row arbitrary: cs)
  case Nil
  then show ?case by simp
next
  case (Cons a row)
  show ?case
  proof (cases cs)
    case Nil
    then show ?thesis by simp
  next
    case (Cons c cs')
    have "(\<Sum>(a, c) \<leftarrow> zip row (map (\<lambda>c. c div g) cs'). a * c) * g = (\<Sum>(a, c) \<leftarrow> zip row cs'. a * c)"
      using Cons.prems Cons by (intro Cons.IH) simp
    moreover have "c div g * g = c" using Cons.prems Cons by simp
    ultimately show ?thesis using Cons by (simp add: algebra_simps)
  qed
qed

lemma scale_to_integers_dot:
  assumes "(\<Sum>(a, x) \<leftarrow> zip row v. of_int a * x) = (0 :: rat)"
  shows "(\<Sum>(a, c) \<leftarrow> zip row (scale_to_integers v). a * c) = 0"
proof -
  let ?L = "foldl lcm 1 (map (\<lambda>x. snd (quotient_of x)) v)"
  have "\<forall>x \<in> set v. of_int (rat_int (x * of_int ?L)) = x * of_int ?L"
  proof
    fix x assume "x \<in> set v"
    then have "snd (quotient_of x) dvd ?L" by (intro foldl_lcm_dvd) simp
    then show "of_int (rat_int (x * of_int ?L)) = x * of_int ?L"
      by (rule rat_times_denominator_multiple)
  qed
  then have "of_int (\<Sum>(a, c) \<leftarrow> zip row (map (\<lambda>x. rat_int (x * of_int ?L)) v). a * c)
      = (\<Sum>(a, x) \<leftarrow> zip row v. of_int a * x) * (of_int ?L :: rat)"
    by (rule scaled_dot)
  then have "(of_int (\<Sum>(a, c) \<leftarrow> zip row (scale_to_integers v). a * c) :: rat) = 0"
    using assms by (simp add: scale_to_integers_def)
  then show ?thesis by simp
qed

lemma sign_normalize_dot:
  "(\<Sum>(a, c) \<leftarrow> zip row cs. a * c) = 0 \<Longrightarrow> (\<Sum>(a, c) \<leftarrow> zip row (sign_normalize cs). a * c) = 0"
  by (simp add: sign_normalize_def negated_dot)

lemma sign_normalize_length: "length (sign_normalize cs) = length cs"
  by (simp add: sign_normalize_def)

lemma solve_matrix_null:
  assumes "solve_matrix ns matrix = Inr coeffs" and "list_all (null_vector matrix) (ns matrix)"
    and "row \<in> set matrix"
  shows "length coeffs = length row" and "(\<Sum>(a, c) \<leftarrow> zip row coeffs. a * c) = 0"
proof -
  from assms(1) obtain sol rest where ns: "ns matrix = sol # rest"
    and g: "gcd_of (sign_normalize (scale_to_integers sol)) \<noteq> 0"
    and r: "coeffs = map (\<lambda>c. c div gcd_of (sign_normalize (scale_to_integers sol)))
                    (sign_normalize (scale_to_integers sol))"
    by (rule solve_matrix_Inr)
  let ?cs = "sign_normalize (scale_to_integers sol)"
  have "null_vector matrix sol" using assms(2) ns by simp
  then have len: "length sol = length row"
    and dot: "(\<Sum>(a, x) \<leftarrow> zip row sol. of_int a * x) = 0"
    using assms(3) by (auto simp: null_vector_def list_all_iff)
  show "length coeffs = length row"
    using len by (simp add: r sign_normalize_length scale_to_integers_length)
  have "(\<Sum>(a, c) \<leftarrow> zip row ?cs. a * c) = 0"
    using dot by (intro sign_normalize_dot scale_to_integers_dot)
  moreover have "(\<Sum>(a, c) \<leftarrow> zip row coeffs. a * c) * gcd_of ?cs = (\<Sum>(a, c) \<leftarrow> zip row ?cs. a * c)"
    unfolding r using gcd_of_dvd by (intro divided_dot) blast
  ultimately show "(\<Sum>(a, c) \<leftarrow> zip row coeffs. a * c) = 0"
    using g by simp
qed

lemma dot_nth:
  "length xs = length ys \<Longrightarrow>
     (\<Sum>(a, c) \<leftarrow> zip xs ys. a * c) = (\<Sum>i < length xs. xs ! i * (ys ! i :: int))"
proof -
  assume len: "length xs = length ys"
  have "(\<Sum>(a, c) \<leftarrow> zip xs ys. a * c)
      = (\<Sum>i = 0..<length (zip xs ys). map (\<lambda>(a, c). a * c) (zip xs ys) ! i)"
    using sum_list_sum_nth [of "map (\<lambda>(a, c). a * c) (zip xs ys)"] by simp
  also have "\<dots> = (\<Sum>i = 0..<length xs. xs ! i * ys ! i)"
    using len by (intro sum.cong) simp_all
  finally show ?thesis by (simp add: lessThan_atLeast0)
qed

lemma matrix_row_dot:
  assumes "length coeffs = length reactants + length products"
  shows "(\<Sum>(a, c) \<leftarrow> zip (matrix_row reactants products element) coeffs. a * c)
       = (\<Sum>j < length products. parsed_count (products ! j) element * coeffs ! (length reactants + j))
         - (\<Sum>i < length reactants. parsed_count (reactants ! i) element * coeffs ! i)"
proof -
  let ?n = "length reactants"
  let ?r = "map (\<lambda>compound. - parsed_count compound element) reactants"
  let ?p = "map (\<lambda>compound. parsed_count compound element) products"
  have "zip (?r @ ?p) coeffs = zip ?r (take ?n coeffs) @ zip ?p (drop ?n coeffs)"
    by (simp add: zip_append1)
  then have "(\<Sum>(a, c) \<leftarrow> zip (matrix_row reactants products element) coeffs. a * c)
      = (\<Sum>(a, c) \<leftarrow> zip ?r (take ?n coeffs). a * c) + (\<Sum>(a, c) \<leftarrow> zip ?p (drop ?n coeffs). a * c)"
    by (simp add: matrix_row_def)
  also have "(\<Sum>(a, c) \<leftarrow> zip ?r (take ?n coeffs). a * c)
      = (\<Sum>i < length ?r. ?r ! i * take ?n coeffs ! i)"
    using assms by (intro dot_nth) simp
  also have "\<dots> = - (\<Sum>i < ?n. parsed_count (reactants ! i) element * coeffs ! i)"
    by (simp add: sum_negf)
  also have "(\<Sum>(a, c) \<leftarrow> zip ?p (drop ?n coeffs). a * c)
      = (\<Sum>j < length ?p. ?p ! j * drop ?n coeffs ! j)"
    using assms by (intro dot_nth) simp
  also have "\<dots> = (\<Sum>j < length products. parsed_count (products ! j) element * coeffs ! (?n + j))"
    using assms by simp
  finally show ?thesis by simp
qed

lemma balance_Inr:
  assumes "balance order ns equation self = (Inr result, self')"
  obtains reactants products matrix element_list coefficients where
    "parse_equation equation self = (Inr (reactants, products), self')"
    and "build_matrix order reactants products = Inr (matrix, element_list)"
    and "solve_matrix ns matrix = Inr coefficients"
    and "get_balanced_equation coefficients reactants products = Inr result"
proof -
  obtain r s where p: "parse_equation equation self = (r, s)"
    by (cases "parse_equation equation self")
  from assms p obtain reactants products where r: "r = Inr (reactants, products)"
    by (cases r) (auto simp: balance_def)
  from assms p r obtain matrix element_list where
    m: "build_matrix order reactants products = Inr (matrix, element_list)"
    by (cases "build_matrix order reactants products") (auto simp: balance_def)
  from assms p r m obtain coefficients where c: "solve_matrix ns matrix = Inr coefficients"
    by (cases "solve_matrix ns matrix") (auto simp: balance_def)
  from assms p r m c have "get_balanced_equation coefficients reactants products = Inr result"
    and "s = self'"
    by (simp_all add: balance_def)
  then show ?thesis using that p r m c by simp
qed

text \<open>
  C1. Whenever \<open>balance\<close> returns a result, the equation was split into reactants and
  products, the solver returned a coefficient vector for their matrix, and for every
  element that occurs in a compound of the equation, the sum over the reactants of the
  count of the element in the compound times the coefficient of the compound equals the
  same sum over the products. The two assumptions are the contracts of what Python and
  sympy provide: \<open>list()\<close> of a finite set lists the elements of the set, and the vectors
  that \<open>nullspace()\<close> returns for the matrix of the equation lie in its null space. By
  \<open>build_matrix_null_vectors\<close> the function \<open>nullspace\<close> meets the second one for every
  equation.
\<close>

theorem balance_conserves_elements:
  assumes "balance order ns equation self = (Inr result, self')"
    and "\<And>S. finite S \<Longrightarrow> set (order S) = S"
    and "\<And>reactants products matrix element_list.
           fst (parse_equation equation self) = Inr (reactants, products) \<Longrightarrow>
           build_matrix order reactants products = Inr (matrix, element_list) \<Longrightarrow>
           list_all (null_vector matrix) (ns matrix)"
  shows "\<exists>reactants products matrix element_list coefficients.
           parse_equation equation self = (Inr (reactants, products), self')
         \<and> build_matrix order reactants products = Inr (matrix, element_list)
         \<and> solve_matrix ns matrix = Inr coefficients
         \<and> get_balanced_equation coefficients reactants products = Inr result
         \<and> (\<forall>element \<in> (\<Union>compound \<in> set (reactants @ products). element_keys compound).
              (\<Sum>i < length reactants. parsed_count (reactants ! i) element * coefficients ! i)
            = (\<Sum>j < length products.
                 parsed_count (products ! j) element * coefficients ! (length reactants + j)))"
proof -
  from assms(1) obtain reactants products matrix element_list coefficients where
    p: "parse_equation equation self = (Inr (reactants, products), self')"
    and m: "build_matrix order reactants products = Inr (matrix, element_list)"
    and c: "solve_matrix ns matrix = Inr coefficients"
    and f: "get_balanced_equation coefficients reactants products = Inr result"
    by (rule balance_Inr)
  have ns: "list_all (null_vector matrix) (ns matrix)"
    using p m by (intro assms(3)) simp_all
  let ?S = "\<Union>compound \<in> set (reactants @ products). element_keys compound"
  have fin: "finite ?S"
    by (rule finite_element_keys)
  have "element_list = order ?S"
    using m by (rule build_matrix_Inr(1))
  then have es: "set element_list = ?S"
    using assms(2) [OF fin] by (simp only:)
  have rows: "matrix = map (matrix_row reactants products) element_list"
    using m by (rule build_matrix_Inr(2))
  have "(\<Sum>i < length reactants. parsed_count (reactants ! i) element * coefficients ! i)
      = (\<Sum>j < length products.
           parsed_count (products ! j) element * coefficients ! (length reactants + j))"
    if "element \<in> ?S" for element
  proof -
    have row: "matrix_row reactants products element \<in> set matrix"
      using that es rows by simp
    have len: "length coefficients = length reactants + length products"
      using solve_matrix_null(1) [OF c ns row] by (simp add: matrix_row_def)
    have "(\<Sum>(a, c) \<leftarrow> zip (matrix_row reactants products element) coefficients. a * c) = 0"
      using c ns row by (rule solve_matrix_null(2))
    then show ?thesis
      using matrix_row_dot [OF len, of element] by simp
  qed
  then show ?thesis
    using p m c f by blast
qed

theorem balance_conserves_elements_witness:
  "balance sorted_list_of_set nullspace ''Fe+O2-->Fe2O3'' init
     = (Inr (''4Fe + 3O2'' @ to_arrow @ ''2Fe2O3''), init\<lparr>compounds := [''Fe'', ''O2'', ''Fe2O3'']\<rparr>)
   \<and> (\<exists>coefficients.
         (\<Sum>i < length [''Fe'', ''O2'']. parsed_count ([''Fe'', ''O2''] ! i) ''O'' * coefficients ! i)
       = (\<Sum>j < length [''Fe2O3''].
            parsed_count ([''Fe2O3''] ! j) ''O'' * coefficients ! (length [''Fe'', ''O2''] + j)))"
proof -
  have b: "balance sorted_list_of_set nullspace ''Fe+O2-->Fe2O3'' init
     = (Inr (''4Fe + 3O2'' @ to_arrow @ ''2Fe2O3''), init\<lparr>compounds := [''Fe'', ''O2'', ''Fe2O3'']\<rparr>)"
    by code_simp
  have pe: "fst (parse_equation ''Fe+O2-->Fe2O3'' init) = Inr ([''Fe'', ''O2''], [''Fe2O3''])"
    by code_simp
  have k: "''O'' \<in> element_keys ''O2''"
    by code_simp
  have "\<exists>reactants products matrix element_list coefficients.
           parse_equation ''Fe+O2-->Fe2O3'' init
             = (Inr (reactants, products), init\<lparr>compounds := [''Fe'', ''O2'', ''Fe2O3'']\<rparr>)
         \<and> build_matrix sorted_list_of_set reactants products = Inr (matrix, element_list)
         \<and> solve_matrix nullspace matrix = Inr coefficients
         \<and> get_balanced_equation coefficients reactants products
             = Inr (''4Fe + 3O2'' @ to_arrow @ ''2Fe2O3'')
         \<and> (\<forall>element \<in> (\<Union>compound \<in> set (reactants @ products). element_keys compound).
              (\<Sum>i < length reactants. parsed_count (reactants ! i) element * coefficients ! i)
            = (\<Sum>j < length products.
                 parsed_count (products ! j) element * coefficients ! (length reactants + j)))"
  proof (rule balance_conserves_elements [where order = sorted_list_of_set and ns = nullspace, OF b])
    show "set (sorted_list_of_set S) = S" if "finite S" for S :: "string set"
      using that by simp
    show "list_all (null_vector matrix) (nullspace matrix)"
      if "fst (parse_equation ''Fe+O2-->Fe2O3'' init) = Inr (reactants, products)"
        and "build_matrix sorted_list_of_set reactants products = Inr (matrix, element_list)"
      for reactants products matrix element_list
      using that(2) by (rule build_matrix_null_vectors)
  qed
  then obtain reactants products coefficients where
    p: "parse_equation ''Fe+O2-->Fe2O3'' init
          = (Inr (reactants, products), init\<lparr>compounds := [''Fe'', ''O2'', ''Fe2O3'']\<rparr>)"
    and c: "\<forall>element \<in> (\<Union>compound \<in> set (reactants @ products). element_keys compound).
              (\<Sum>i < length reactants. parsed_count (reactants ! i) element * coefficients ! i)
            = (\<Sum>j < length products.
                 parsed_count (products ! j) element * coefficients ! (length reactants + j))"
    by blast
  have rp: "reactants = [''Fe'', ''O2'']" "products = [''Fe2O3'']"
    using p pe by simp_all
  have "''O'' \<in> (\<Union>compound \<in> set (reactants @ products). element_keys compound)"
    using k rp by simp
  then have "(\<Sum>i < length reactants. parsed_count (reactants ! i) ''O'' * coefficients ! i)
            = (\<Sum>j < length products.
                 parsed_count (products ! j) ''O'' * coefficients ! (length reactants + j))"
    using c by blast
  then show ?thesis
    using b unfolding rp by blast
qed

end
